theory Spec2Isabelle
  imports Complex_Main
begin

section \<open>JavaScript numbers\<close>

text \<open>
  Every number of the program is a JavaScript number, that is an IEEE 754 binary64 value.
  A finite double is kept as the real number it denotes; the two infinities and NaN are
  values of their own. The zero of negative sign is identified with zero: the two compare
  equal under every operator the program uses, and \<^verbatim>\<open>Math.max(0, -0)\<close> is \<^verbatim>\<open>0\<close>.

  Each arithmetic operation computes the exact real result and rounds it to the nearest
  double, ties to the even significand (\<open>to_double\<close>): 53 significant bits, the smallest
  quantum \<open>2 powi (-1074)\<close> of the subnormal range, and overflow to infinity when the
  rounded magnitude reaches \<open>2 powi 1024\<close>.
\<close>

datatype jsnum = Num real | PosInfinity | NegInfinity | NaN

function bitlen :: "int \<Rightarrow> int" where
  "bitlen n = (if n \<le> 0 then 0 else 1 + bitlen (n div 2))"
  by pat_completeness auto
termination
  by (relation "measure nat") auto

declare bitlen.simps [simp del]

definition pow2 :: "int \<Rightarrow> real" where
  "pow2 k = 2 powi k"

text \<open>The binary exponent of a positive real: \<open>pow2 (ilog2 a) \<le> a < pow2 (ilog2 a + 1)\<close>.\<close>

definition ilog2 :: "real \<Rightarrow> int" where
  "ilog2 a = (if 1 \<le> a then bitlen \<lfloor>a\<rfloor> - 1 else - bitlen (\<lceil>1 / a\<rceil> - 1))"

definition round_half_even :: "real \<Rightarrow> int" where
  "round_half_even q =
     (let f = \<lfloor>q\<rfloor>; r = q - of_int f
      in if r < 1 / 2 then f else if 1 / 2 < r then f + 1 else if even f then f else f + 1)"

text \<open>The spacing of the doubles around a positive real.\<close>

definition quantum :: "real \<Rightarrow> int" where
  "quantum a = max (ilog2 a - 52) (- 1074)"

definition round_mag :: "real \<Rightarrow> real" where
  "round_mag a =
     (if a = 0 then 0
      else of_int (round_half_even (a / pow2 (quantum a))) * pow2 (quantum a))"

definition to_double :: "real \<Rightarrow> jsnum" where
  "to_double q =
     (let m = round_mag \<bar>q\<bar>
      in if pow2 1024 \<le> m then (if 0 < q then PosInfinity else NegInfinity)
         else Num (if q < 0 then - m else m))"

text \<open>
  A decimal literal of the source denotes the double nearest to it: \<open>dec n k\<close> is the
  literal whose digits are those of \<open>n\<close>, the last \<open>k\<close> of them after the point, so that
  \<^verbatim>\<open>0.06\<close> is \<open>dec 6 2\<close> and \<^verbatim>\<open>0.325\<close> is \<open>dec 325 3\<close>. The integer literals of the source
  are doubles as they stand.
\<close>

definition dec :: "int \<Rightarrow> nat \<Rightarrow> jsnum" where
  "dec n k = to_double (of_int n / 10 ^ k)"

fun js_neg :: "jsnum \<Rightarrow> jsnum" where
  "js_neg (Num a) = Num (- a)"
| "js_neg PosInfinity = NegInfinity"
| "js_neg NegInfinity = PosInfinity"
| "js_neg NaN = NaN"

fun js_add :: "jsnum \<Rightarrow> jsnum \<Rightarrow> jsnum" where
  "js_add (Num a) (Num b) = to_double (a + b)"
| "js_add NaN _ = NaN"
| "js_add _ NaN = NaN"
| "js_add PosInfinity NegInfinity = NaN"
| "js_add NegInfinity PosInfinity = NaN"
| "js_add PosInfinity _ = PosInfinity"
| "js_add _ PosInfinity = PosInfinity"
| "js_add NegInfinity _ = NegInfinity"
| "js_add _ NegInfinity = NegInfinity"

definition js_sub :: "jsnum \<Rightarrow> jsnum \<Rightarrow> jsnum" where
  "js_sub a b = js_add a (js_neg b)"

fun js_mul :: "jsnum \<Rightarrow> jsnum \<Rightarrow> jsnum" where
  "js_mul (Num a) (Num b) = to_double (a * b)"
| "js_mul NaN _ = NaN"
| "js_mul _ NaN = NaN"
| "js_mul (Num a) PosInfinity =
     (if a = 0 then NaN else if 0 < a then PosInfinity else NegInfinity)"
| "js_mul (Num a) NegInfinity =
     (if a = 0 then NaN else if 0 < a then NegInfinity else PosInfinity)"
| "js_mul PosInfinity (Num b) =
     (if b = 0 then NaN else if 0 < b then PosInfinity else NegInfinity)"
| "js_mul NegInfinity (Num b) =
     (if b = 0 then NaN else if 0 < b then NegInfinity else PosInfinity)"
| "js_mul PosInfinity PosInfinity = PosInfinity"
| "js_mul NegInfinity NegInfinity = PosInfinity"
| "js_mul PosInfinity NegInfinity = NegInfinity"
| "js_mul NegInfinity PosInfinity = NegInfinity"

text \<open>The comparisons \<^verbatim>\<open><=\<close> and \<^verbatim>\<open><\<close>: false as soon as an operand is NaN.\<close>

fun js_le :: "jsnum \<Rightarrow> jsnum \<Rightarrow> bool" where
  "js_le NaN _ = False"
| "js_le _ NaN = False"
| "js_le (Num a) (Num b) = (a \<le> b)"
| "js_le NegInfinity _ = True"
| "js_le _ PosInfinity = True"
| "js_le _ _ = False"

fun js_lt :: "jsnum \<Rightarrow> jsnum \<Rightarrow> bool" where
  "js_lt NaN _ = False"
| "js_lt _ NaN = False"
| "js_lt (Num a) (Num b) = (a < b)"
| "js_lt PosInfinity _ = False"
| "js_lt _ NegInfinity = False"
| "js_lt _ _ = True"

fun Math_max :: "jsnum \<Rightarrow> jsnum \<Rightarrow> jsnum" where
  "Math_max NaN _ = NaN"
| "Math_max _ NaN = NaN"
| "Math_max a b = (if js_lt a b then b else a)"

fun Math_min :: "jsnum \<Rightarrow> jsnum \<Rightarrow> jsnum" where
  "Math_min NaN _ = NaN"
| "Math_min _ NaN = NaN"
| "Math_min a b = (if js_lt b a then b else a)"

subsection \<open>\<^verbatim>\<open>toFixed(2)\<close> and \<^verbatim>\<open>parseFloat\<close>\<close>

text \<open>
  \<^verbatim>\<open>x.toFixed(2)\<close> is a text. For a finite \<open>x\<close> of magnitude below \<open>10^21\<close> it is the
  decimal with two fraction digits of \<open>n / 100\<close>, where (on the magnitude of \<open>x\<close>, the sign
  being put in front) \<open>n\<close> is the integer for which \<open>n / 100 - x\<close> is as close to zero as
  possible, the larger one if there are two. From \<open>10^21\<close> on it is the shortest text that
  reads back as \<open>x\<close>; an infinity and NaN give their names. \<^verbatim>\<open>parseFloat\<close> reads a text
  back as the nearest double; the text \<^verbatim>\<open>NaN\<close> is not a number.
\<close>

datatype numtext = Fixed2 int | Shortest real | InfinityText | NegInfinityText | NaNText

text \<open>The integer \<open>n\<close> of \<^verbatim>\<open>toFixed(2)\<close>, with the sign of \<open>x\<close>.\<close>

definition fixed_int :: "real \<Rightarrow> int" where
  "fixed_int x = (if x < 0 then - \<lfloor>(- x) * 100 + 1 / 2\<rfloor> else \<lfloor>x * 100 + 1 / 2\<rfloor>)"

fun toFixed2 :: "jsnum \<Rightarrow> numtext" where
  "toFixed2 NaN = NaNText"
| "toFixed2 PosInfinity = InfinityText"
| "toFixed2 NegInfinity = NegInfinityText"
| "toFixed2 (Num x) = (if 10 ^ 21 \<le> \<bar>x\<bar> then Shortest x else Fixed2 (fixed_int x))"

fun parseFloat :: "numtext \<Rightarrow> jsnum" where
  "parseFloat (Fixed2 n) = to_double (of_int n / 100)"
| "parseFloat (Shortest x) = to_double x"
| "parseFloat InfinityText = PosInfinity"
| "parseFloat NegInfinityText = NegInfinity"
| "parseFloat NaNText = NaN"

text \<open>The idiom \<^verbatim>\<open>parseFloat(x.toFixed(2))\<close> of the source.\<close>

definition fix2 :: "jsnum \<Rightarrow> jsnum" where
  "fix2 x = parseFloat (toFixed2 x)"

section \<open>The deduction engine: \<^verbatim>\<open>calculatePAYE\<close>\<close>

record paye_params =
  grossPay :: jsnum
  benefits :: jsnum
  pension :: jsnum
  allowableDeductions :: jsnum
  housed :: bool
  housingType :: string
  housingValue :: jsnum
  rent :: jsnum
  ignoreBenefits :: bool
  use2025Tiers :: bool
  deductTier2 :: bool
  deductAHL :: bool

record paye_result =
  grossPay_out :: jsnum
  benefits_out :: jsnum
  pension_out :: jsnum
  allowableDeductions_out :: jsnum
  housed_out :: bool
  housingValue_out :: jsnum
  rent_out :: jsnum
  taxableBenefits :: jsnum
  taxableIncome :: jsnum
  paye :: jsnum
  nssf :: jsnum
  nhif :: jsnum
  ahl :: jsnum
  totalDeductions :: jsnum
  netPay :: jsnum
  personalReliefUsed :: jsnum

definition NSSF_LEL :: jsnum where "NSSF_LEL = Num 6000"
definition NSSF_BWC :: jsnum where "NSSF_BWC = Num 18000"
definition NSSF_RATE :: jsnum where "NSSF_RATE = dec 6 2"
definition KRA_MONTHLY_RELIEF :: jsnum where "KRA_MONTHLY_RELIEF = Num 2400"

text \<open>
  Each step of the source computes a value and then replaces it by
  \<^verbatim>\<open>parseFloat(x.toFixed(2))\<close>. The value before that line is the \<open>raw\<close> function of the step.

  Step 1 of the source: the taxable non-cash benefits.
\<close>

definition taxableBenefits_raw :: "paye_params \<Rightarrow> jsnum" where
  "taxableBenefits_raw p =
     (let tb0 = (if \<not> ignoreBenefits p then benefits p
                 else Math_max (Num 0) (js_sub (benefits p) (Num 5000)))
      in if housed p \<and> js_lt (Num 0) (housingValue p)
         then js_add tb0 (Math_max (Num 0) (js_sub (housingValue p) (rent p)))
         else tb0)"

definition taxableBenefits_of :: "paye_params \<Rightarrow> jsnum" where
  "taxableBenefits_of p = fix2 (taxableBenefits_raw p)"

text \<open>Step 2: the NSSF contribution. The variable starts at \<open>0\<close> and the tiers are added to it.\<close>

definition nssf_raw :: "paye_params \<Rightarrow> jsnum" where
  "nssf_raw p =
     (if use2025Tiers p then
        (let tier1Contribution = js_mul (Math_min (grossPay p) NSSF_LEL) NSSF_RATE;
             nssf1 = js_add (Num 0) tier1Contribution
         in if deductTier2 p \<and> js_lt NSSF_LEL (grossPay p) then
              (let tier2AssessablePay = js_sub (Math_min (grossPay p) NSSF_BWC) NSSF_LEL;
                   tier2Contribution = js_mul tier2AssessablePay NSSF_RATE
               in js_add nssf1 tier2Contribution)
            else nssf1)
      else Num 200)"

definition nssf_of :: "paye_params \<Rightarrow> jsnum" where
  "nssf_of p = fix2 (nssf_raw p)"

text \<open>Step 3: the NHIF (SHIF) contribution, a chain of comparisons on the gross pay.\<close>

definition nhif_raw :: "paye_params \<Rightarrow> jsnum" where
  "nhif_raw p =
     (let g = grossPay p in
      if js_le g (Num 5999) then Num 150
      else if js_le g (Num 7999) then Num 300
      else if js_le g (Num 11999) then Num 400
      else if js_le g (Num 14999) then Num 500
      else if js_le g (Num 19999) then Num 600
      else if js_le g (Num 24999) then Num 750
      else if js_le g (Num 29999) then Num 850
      else if js_le g (Num 34999) then Num 900
      else if js_le g (Num 39999) then Num 950
      else if js_le g (Num 44999) then Num 1000
      else if js_le g (Num 49999) then Num 1100
      else if js_le g (Num 59999) then Num 1200
      else if js_le g (Num 69999) then Num 1300
      else if js_le g (Num 79999) then Num 1400
      else if js_le g (Num 89999) then Num 1500
      else if js_le g (Num 99999) then Num 1600
      else Num 1700)"

definition nhif_of :: "paye_params \<Rightarrow> jsnum" where
  "nhif_of p = fix2 (nhif_raw p)"

text \<open>Step 4: the affordable housing levy.\<close>

definition ahl_raw :: "paye_params \<Rightarrow> jsnum" where
  "ahl_raw p = (if deductAHL p then js_mul (grossPay p) (dec 15 3) else Num 0)"

definition ahl_of :: "paye_params \<Rightarrow> jsnum" where
  "ahl_of p = fix2 (ahl_raw p)"

text \<open>
  Step 5: the taxable income. The source first computes a \<open>totalAllowableDeductions\<close> and a
  \<open>taxableIncome\<close> that nothing reads before line 167 overwrites it; what reaches the result
  is \<open>incomeSubjectToPAYE\<close>, given here with the values of steps 1 to 4.
\<close>

definition incomeSubjectToPAYE_of ::
  "paye_params \<Rightarrow> jsnum \<Rightarrow> jsnum \<Rightarrow> jsnum \<Rightarrow> jsnum \<Rightarrow> jsnum" where
  "incomeSubjectToPAYE_of p tb ns nh ah =
     js_sub (js_sub (js_sub (js_sub (js_sub (js_add (grossPay p) tb)
       (Math_min (pension p) (Num 30000))) ns) nh) ah) (allowableDeductions p)"

definition taxableIncome_of ::
  "paye_params \<Rightarrow> jsnum \<Rightarrow> jsnum \<Rightarrow> jsnum \<Rightarrow> jsnum \<Rightarrow> jsnum" where
  "taxableIncome_of p tb ns nh ah =
     fix2 (Math_max (Num 0) (incomeSubjectToPAYE_of p tb ns nh ah))"

text \<open>Step 6: the tax bands, then the relief.\<close>

definition taxBeforeRelief_of :: "jsnum \<Rightarrow> jsnum" where
  "taxBeforeRelief_of ti =
     (if js_le ti (Num 24000) then js_mul ti (dec 10 2)
      else if js_le ti (Num 32333) then
        js_add (js_mul (Num 24000) (dec 10 2))
               (js_mul (js_sub ti (Num 24000)) (dec 25 2))
      else if js_le ti (Num 500000) then
        js_add (js_add (js_mul (Num 24000) (dec 10 2))
                       (js_mul (Num 8333) (dec 25 2)))
               (js_mul (js_sub ti (Num 32333)) (dec 30 2))
      else if js_le ti (Num 800000) then
        js_add (js_add (js_add (js_mul (Num 24000) (dec 10 2))
                               (js_mul (Num 8333) (dec 25 2)))
                       (js_mul (Num 467667) (dec 30 2)))
               (js_mul (js_sub ti (Num 500000)) (dec 325 3))
      else
        js_add (js_add (js_add (js_add (js_mul (Num 24000) (dec 10 2))
                                       (js_mul (Num 8333) (dec 25 2)))
                               (js_mul (Num 467667) (dec 30 2)))
                       (js_mul (Num 300000) (dec 325 3)))
               (js_mul (js_sub ti (Num 800000)) (dec 35 2)))"

definition paye_of :: "jsnum \<Rightarrow> jsnum" where
  "paye_of ti = fix2 (Math_max (Num 0) (js_sub (taxBeforeRelief_of ti) KRA_MONTHLY_RELIEF))"

text \<open>Steps 7 and 8 and the returned object.\<close>

definition calculatePAYE :: "paye_params \<Rightarrow> paye_result" where
  "calculatePAYE p =
     (let tb = taxableBenefits_of p;
          ns = nssf_of p;
          nh = nhif_of p;
          ah = ahl_of p;
          ti = taxableIncome_of p tb ns nh ah;
          pa = paye_of ti;
          td = fix2 (js_add (js_add (js_add (js_add (js_add pa ns) nh) ah) (pension p))
                            (allowableDeductions p));
          np = fix2 (js_sub (grossPay p) td)
      in \<lparr> grossPay_out = fix2 (grossPay p),
           benefits_out = fix2 (benefits p),
           pension_out = fix2 (pension p),
           allowableDeductions_out = fix2 (allowableDeductions p),
           housed_out = housed p,
           housingValue_out = fix2 (housingValue p),
           rent_out = fix2 (rent p),
           taxableBenefits = tb,
           taxableIncome = ti,
           paye = pa,
           nssf = ns,
           nhif = nh,
           ahl = ah,
           totalDeductions = td,
           netPay = np,
           personalReliefUsed = KRA_MONTHLY_RELIEF \<rparr>)"

text \<open>
  The two tiers of step 2 as functions of the gross pay, and the parts of step 6: the tax of
  the full bands below a band (the sums the source writes out in each branch) and the tax of
  a band, \<open>below + (ti - lower) * rate\<close>.
\<close>

definition tier1_of :: "real \<Rightarrow> jsnum" where
  "tier1_of x = js_add (Num 0) (js_mul (Math_min (Num x) NSSF_LEL) NSSF_RATE)"

definition tier2_of :: "real \<Rightarrow> jsnum" where
  "tier2_of x = js_mul (js_sub (Math_min (Num x) NSSF_BWC) NSSF_LEL) NSSF_RATE"

definition full_band1 :: jsnum where
  "full_band1 = js_mul (Num 24000) (dec 10 2)"
definition full_band2 :: jsnum where
  "full_band2 = js_add full_band1 (js_mul (Num 8333) (dec 25 2))"
definition full_band3 :: jsnum where
  "full_band3 = js_add full_band2 (js_mul (Num 467667) (dec 30 2))"
definition full_band4 :: jsnum where
  "full_band4 = js_add full_band3 (js_mul (Num 300000) (dec 325 3))"

definition band_tax :: "jsnum \<Rightarrow> real \<Rightarrow> jsnum \<Rightarrow> jsnum \<Rightarrow> jsnum" where
  "band_tax below lower rate ti = js_add below (js_mul (js_sub ti (Num lower)) rate)"

text \<open>
  What the caller (the calculator screen) lets through to \<^verbatim>\<open>calculatePAYE\<close>: every amount is a
  finite double that is not negative. A real \<open>x\<close> is a finite double when rounding leaves it
  as it is.
\<close>

definition is_double :: "real \<Rightarrow> bool" where
  "is_double x = (to_double x = Num x)"

fun amount :: "jsnum \<Rightarrow> bool" where
  "amount (Num x) = (0 \<le> x \<and> is_double x)"
| "amount _ = False"

definition valid_input :: "paye_params \<Rightarrow> bool" where
  "valid_input p =
     (amount (grossPay p) \<and> amount (benefits p) \<and> amount (pension p) \<and>
      amount (allowableDeductions p) \<and> amount (housingValue p) \<and> amount (rent p))"

text \<open>The input of the bracket example of the specification.\<close>

definition example_50000 :: paye_params where
  "example_50000 =
     \<lparr> grossPay = Num 50000, benefits = Num 0, pension = Num 0, allowableDeductions = Num 0,
       housed = False, housingType = ''1'', housingValue = Num 0, rent = Num 0,
       ignoreBenefits = True, use2025Tiers = True, deductTier2 = True, deductAHL = True \<rparr>"

text \<open>Further inputs, used as examples below.\<close>

definition example_99999 :: paye_params where
  "example_99999 = example_50000\<lparr>grossPay := Num 99999\<rparr>"

definition example_100000 :: paye_params where
  "example_100000 = example_50000\<lparr>grossPay := Num 100000\<rparr>"

definition example_negative_net :: paye_params where
  "example_negative_net = example_50000\<lparr>grossPay := Num 1000, pension := Num 5000\<rparr>"

definition example_10000 :: paye_params where
  "example_10000 = example_50000\<lparr>grossPay := Num 10000\<rparr>"

definition example_pension :: paye_params where
  "example_pension = example_50000\<lparr>pension := Num 45000\<rparr>"

text \<open>A JavaScript number: a finite double, an infinity or NaN.\<close>

fun js_number :: "jsnum \<Rightarrow> bool" where
  "js_number (Num x) = is_double x"
| "js_number _ = True"

text \<open>
  Modelled from the spec: "rounded to 2 decimal places using standard
  round-half-away-from-zero". \<open>rounds_half_away_2dp x n\<close> says that \<open>n\<close> hundredths is the
  real \<open>x\<close> rounded to two decimals: no hundredth is nearer to \<open>x\<close>, and when \<open>x\<close> lies half
  way between two hundredths, \<open>n\<close> is the one away from zero. \<open>rounded_2dp x v\<close> says that the
  number \<open>v\<close> is the number \<open>x\<close> so rounded: the double nearest to that hundredth; an
  infinity or NaN has no decimals and stays as it is.
\<close>

definition rounds_half_away_2dp :: "real \<Rightarrow> int \<Rightarrow> bool" where
  "rounds_half_away_2dp x n =
     ((\<forall>m. \<bar>of_int n / 100 - x\<bar> \<le> \<bar>of_int m / 100 - x\<bar>) \<and>
      (\<bar>of_int n / 100 - x\<bar> = 1 / 200 \<longrightarrow> \<bar>x\<bar> < \<bar>of_int n / 100\<bar>))"

fun rounded_2dp :: "jsnum \<Rightarrow> jsnum \<Rightarrow> bool" where
  "rounded_2dp (Num x) v = (\<exists>n. rounds_half_away_2dp x n \<and> v = to_double (of_int n / 100))"
| "rounded_2dp x v = (v = x)"

definition example_tie :: paye_params where
  "example_tie = example_50000\<lparr>benefits := Num (40001 / 8), ignoreBenefits := False\<rparr>"

section \<open>The history ledger: \<^verbatim>\<open>HistoryProvider\<close> and \<^verbatim>\<open>HistoryScreen\<close>\<close>

text \<open>
  An entry is the result object with a \<open>timestamp\<close> field added by the spread
  \<^verbatim>\<open>{ ...result, timestamp: new Date().toISOString() }\<close>. The clock is outside the program:
  its reading is an argument of \<open>addToHistory\<close>.

  JavaScript arrays are mutable objects that are passed by reference, so the model keeps a
  store of arrays. The state variable \<open>history\<close> of \<^verbatim>\<open>useState\<close> holds a reference, and this
  reference is what the context hands to every reader. An array literal allocates a fresh
  array; spreading a reference that points to no array throws, which is the value \<open>None\<close>.
\<close>

record history_entry = paye_result +
  timestamp :: string

text \<open>The spread: the fields of the result, and the timestamp.\<close>

definition entry :: "string \<Rightarrow> paye_result \<Rightarrow> history_entry" where
  "entry now result = paye_result.extend result (history_entry.fields now)"

type_synonym ref = nat

record ledger =
  arrays :: "ref \<Rightarrow> history_entry list option"
  next_ref :: ref
  history :: ref

definition new_array :: "history_entry list \<Rightarrow> ledger \<Rightarrow> ref \<times> ledger" where
  "new_array xs s =
     (next_ref s, s\<lparr> arrays := (arrays s)(next_ref s \<mapsto> xs), next_ref := Suc (next_ref s) \<rparr>)"

text \<open>\<^verbatim>\<open>useState([])\<close>: the first state is a fresh empty array.\<close>

definition initial_ledger :: ledger where
  "initial_ledger = \<lparr> arrays = Map.empty(0 \<mapsto> []), next_ref = 1, history = 0 \<rparr>"

definition addToHistory :: "string \<Rightarrow> paye_result \<Rightarrow> ledger \<Rightarrow> ledger option" where
  "addToHistory now result s =
     (let newResultWithTimestamp = entry now result
      in case arrays s (history s) of
           None \<Rightarrow> None
         | Some prev \<Rightarrow>
             (let (r, s') = new_array (newResultWithTimestamp # prev) s
              in Some (s'\<lparr> history := r \<rparr>)))"

text \<open>Reading the ledger: the array the state variable refers to.\<close>

definition history_list :: "ledger \<Rightarrow> history_entry list option" where
  "history_list s = arrays s (history s)"

text \<open>\<^verbatim>\<open>Array.prototype.reverse\<close> reverses the array in place.\<close>

definition reverse_in_place :: "ref \<Rightarrow> ledger \<Rightarrow> ledger option" where
  "reverse_in_place r s =
     (case arrays s r of
        None \<Rightarrow> None
      | Some xs \<Rightarrow> Some (s\<lparr> arrays := (arrays s)(r \<mapsto> rev xs) \<rparr>))"

text \<open>
  The \<open>data\<close> of the list of \<^verbatim>\<open>HistoryScreen\<close>, \<^verbatim>\<open>[...history].reverse()\<close>: a copy of the
  history array, reversed in place. The result is the reference of the copy and the new store.
\<close>

definition HistoryScreen_data :: "ledger \<Rightarrow> (ref \<times> ledger) option" where
  "HistoryScreen_data s =
     (case arrays s (history s) of
        None \<Rightarrow> None
      | Some xs \<Rightarrow>
          (let (r, s') = new_array xs s
           in case reverse_in_place r s' of
                None \<Rightarrow> None
              | Some s'' \<Rightarrow> Some (r, s'')))"

text \<open>A run of the ledger: the appends of a list of clock readings and results, in order.\<close>

fun appends :: "(string \<times> paye_result) list \<Rightarrow> ledger \<Rightarrow> ledger option" where
  "appends [] s = Some s"
| "appends ((now, result) # rest) s =
     (case addToHistory now result s of None \<Rightarrow> None | Some s' \<Rightarrow> appends rest s')"

text \<open>The entries that the list of \<^verbatim>\<open>HistoryScreen\<close> shows, from top to bottom.\<close>

definition HistoryScreen_rows :: "ledger \<Rightarrow> history_entry list option" where
  "HistoryScreen_rows s =
     (case HistoryScreen_data s of None \<Rightarrow> None | Some (r, s') \<Rightarrow> arrays s' r)"

text \<open>
  The store of a ledger is in order when the history refers to an array and no array lies
  at or beyond the next fresh reference.
\<close>

definition ledger_ok :: "ledger \<Rightarrow> bool" where
  "ledger_ok s = (arrays s (history s) \<noteq> None \<and> (\<forall>r. next_ref s \<le> r \<longrightarrow> arrays s r = None))"

section \<open>Rounding to the nearest double is monotone\<close>

lemma pow2_pos: "0 < pow2 k"
  by (simp add: pow2_def)

lemma pow2_add: "pow2 (a + b) = pow2 a * pow2 b"
  by (simp add: pow2_def power_int_add)

lemma pow2_nat: "0 \<le> k \<Longrightarrow> pow2 k = of_int (2 ^ nat k)"
  by (simp add: pow2_def power_int_def)

lemma pow2_mono: "a \<le> b \<Longrightarrow> pow2 a \<le> pow2 b"
  by (simp add: pow2_def power_int_increasing)

lemma bitlen_bounds: "0 < n \<Longrightarrow> 1 \<le> bitlen n \<and> 2 ^ nat (bitlen n - 1) \<le> n \<and> n < 2 ^ nat (bitlen n)"
proof (induction n rule: bitlen.induct)
  case (1 n)
  show ?case
  proof (cases "n div 2 = 0")
    case True
    with "1.prems" have n1: "n = 1" by arith
    have "bitlen 1 = 1" by (simp add: bitlen.simps)
    with n1 show ?thesis by simp
  next
    case False
    with "1.prems" have m: "0 < n div 2" by arith
    let ?m = "n div 2"
    from "1.IH" [OF _ m] "1.prems"
    have IH: "1 \<le> bitlen ?m" "2 ^ nat (bitlen ?m - 1) \<le> ?m" "?m < 2 ^ nat (bitlen ?m)"
      by auto
    have b: "bitlen n = 1 + bitlen ?m"
      using "1.prems" by (subst bitlen.simps) simp
    have e1: "nat (bitlen n - 1) = Suc (nat (bitlen ?m - 1))"
      using IH(1) b by simp
    have e2: "nat (bitlen n) = Suc (nat (bitlen ?m))"
      using IH(1) b by simp
    have "2 * ?m \<le> n" "n \<le> 2 * ?m + 1" by arith+
    moreover have "(2::int) ^ nat (bitlen n - 1) = 2 * 2 ^ nat (bitlen ?m - 1)"
      by (simp add: e1)
    moreover have "(2::int) ^ nat (bitlen n) = 2 * 2 ^ nat (bitlen ?m)"
      by (simp add: e2)
    ultimately show ?thesis using IH b by auto
  qed
qed

lemma pow2_neg: "pow2 (- k) = 1 / pow2 k"
  by (simp add: pow2_def power_int_minus divide_inverse)

lemma ilog2_bounds:
  assumes "0 < a"
  shows "pow2 (ilog2 a) \<le> a \<and> a < pow2 (ilog2 a + 1)"
proof (cases "1 \<le> a")
  case True
  let ?n = "\<lfloor>a\<rfloor>"
  from True have n: "0 < ?n" by simp
  from bitlen_bounds [OF n]
  have b: "1 \<le> bitlen ?n" "2 ^ nat (bitlen ?n - 1) \<le> ?n" "?n < 2 ^ nat (bitlen ?n)"
    by auto
  have e: "ilog2 a = bitlen ?n - 1" using True by (simp add: ilog2_def)
  have "pow2 (bitlen ?n - 1) = of_int (2 ^ nat (bitlen ?n - 1))"
    using b(1) by (intro pow2_nat) simp
  also have "\<dots> \<le> of_int ?n" using b(2) by (simp only: of_int_le_iff)
  also have "\<dots> \<le> a" by simp
  finally have lo: "pow2 (ilog2 a) \<le> a" by (simp add: e)
  have "a < of_int (?n + 1)" by linarith
  also have "\<dots> \<le> of_int (2 ^ nat (bitlen ?n))"
  proof -
    from b(3) have "?n + 1 \<le> 2 ^ nat (bitlen ?n)" by simp
    then show ?thesis by (simp only: of_int_le_iff)
  qed
  also have "\<dots> = pow2 (bitlen ?n)"
    using b(1) by (subst pow2_nat) simp_all
  finally have "a < pow2 (ilog2 a + 1)" by (simp add: e)
  with lo show ?thesis by simp
next
  case False
  let ?b = "1 / a"
  let ?m = "\<lceil>?b\<rceil> - 1"
  from False assms have b1: "1 < ?b" by simp
  then have "2 \<le> \<lceil>?b\<rceil>" by linarith
  then have m: "0 < ?m" by simp
  from bitlen_bounds [OF m]
  have k: "1 \<le> bitlen ?m" "2 ^ nat (bitlen ?m - 1) \<le> ?m" "?m < 2 ^ nat (bitlen ?m)"
    by auto
  let ?k = "bitlen ?m"
  have e: "ilog2 a = - ?k" using False by (simp add: ilog2_def)
  have mb: "of_int ?m < ?b" by linarith
  have bm: "?b \<le> of_int (?m + 1)" by simp
  have "?b \<le> of_int (2 ^ nat ?k)"
  proof -
    have "?m + 1 \<le> 2 ^ nat ?k" using k(3) by simp
    then have "(of_int (?m + 1) :: real) \<le> of_int (2 ^ nat ?k)" by (simp only: of_int_le_iff)
    with bm show ?thesis by linarith
  qed
  also have "\<dots> = pow2 ?k" using k(1) by (subst pow2_nat) simp_all
  finally have up: "?b \<le> pow2 ?k" .
  have "pow2 (?k - 1) = of_int (2 ^ nat (?k - 1))" using k(1) by (intro pow2_nat) simp
  also have "\<dots> \<le> of_int ?m" using k(2) by (simp only: of_int_le_iff)
  also have "\<dots> < ?b" by (rule mb)
  finally have lo: "pow2 (?k - 1) < ?b" .
  have "pow2 (- ?k) \<le> a"
  proof -
    have "1 / pow2 ?k \<le> a"
      using up assms pow2_pos [of ?k] by (simp add: field_simps)
    then show ?thesis by (simp only: pow2_neg)
  qed
  moreover have "a < pow2 (- ?k + 1)"
  proof -
    have eq: "pow2 (- ?k + 1) = 1 / pow2 (?k - 1)"
      using pow2_neg [of "?k - 1"] by simp
    have "a < 1 / pow2 (?k - 1)"
      using lo assms pow2_pos [of "?k - 1"] by (simp add: field_simps)
    then show ?thesis by (simp only: eq)
  qed
  ultimately show ?thesis by (simp add: e)
qed

lemma ilog2_mono:
  assumes "0 < a" "a \<le> b"
  shows "ilog2 a \<le> ilog2 b"
proof (rule ccontr)
  assume "\<not> ilog2 a \<le> ilog2 b"
  then have "ilog2 b + 1 \<le> ilog2 a" by simp
  then have "pow2 (ilog2 b + 1) \<le> pow2 (ilog2 a)" by (rule pow2_mono)
  moreover from assms have "0 < b" by simp
  ultimately show False
    using ilog2_bounds [OF assms(1)] ilog2_bounds [OF \<open>0 < b\<close>] assms(2) by linarith
qed

lemma ilog2_unique:
  assumes "pow2 e \<le> a" "a < pow2 (e + 1)"
  shows "ilog2 a = e"
proof -
  from assms(1) pow2_pos [of e] have a: "0 < a" by linarith
  note b = ilog2_bounds [OF a]
  have "\<not> ilog2 a + 1 \<le> e"
  proof
    assume "ilog2 a + 1 \<le> e"
    then have "pow2 (ilog2 a + 1) \<le> pow2 e" by (rule pow2_mono)
    with b assms show False by linarith
  qed
  moreover have "\<not> e + 1 \<le> ilog2 a"
  proof
    assume "e + 1 \<le> ilog2 a"
    then have "pow2 (e + 1) \<le> pow2 (ilog2 a)" by (rule pow2_mono)
    with b assms show False by linarith
  qed
  ultimately show ?thesis by simp
qed

lemma rhe_floor_bounds: "\<lfloor>x\<rfloor> \<le> round_half_even x \<and> round_half_even x \<le> \<lfloor>x\<rfloor> + 1"
  by (simp add: round_half_even_def Let_def)

lemma rhe_of_int: "round_half_even (of_int n) = n"
  by (simp add: round_half_even_def Let_def)

lemma rhe_mono:
  assumes "x \<le> y"
  shows "round_half_even x \<le> round_half_even y"
proof (cases "\<lfloor>x\<rfloor> = \<lfloor>y\<rfloor>")
  case True
  with assms show ?thesis
    by (auto simp: round_half_even_def Let_def)
next
  case False
  with assms have "\<lfloor>x\<rfloor> + 1 \<le> \<lfloor>y\<rfloor>"
    using floor_mono [OF assms] by linarith
  with rhe_floor_bounds [of x] rhe_floor_bounds [of y] show ?thesis by linarith
qed

lemma rhe_nonneg: "0 \<le> x \<Longrightarrow> 0 \<le> round_half_even x"
  using rhe_mono [of 0 x] rhe_of_int [of 0] by simp

lemma round_mag_nonneg: "0 \<le> a \<Longrightarrow> 0 \<le> round_mag a"
  using pow2_pos by (simp add: round_mag_def rhe_nonneg less_imp_le)

lemma quantum_mono: "0 < a \<Longrightarrow> a \<le> b \<Longrightarrow> quantum a \<le> quantum b"
  using ilog2_mono [of a b] by (simp add: quantum_def)

lemma pow2_diff: "pow2 a / pow2 b = pow2 (a - b)"
proof -
  have "pow2 a = pow2 (a - b) * pow2 b" using pow2_add [of "a - b" b] by simp
  then show ?thesis using pow2_pos [of b] by simp
qed

lemma round_mag_pos_eq:
  "0 < a \<Longrightarrow> round_mag a = of_int (round_half_even (a / pow2 (quantum a))) * pow2 (quantum a)"
  by (simp add: round_mag_def)

text \<open>A power of two that the spacing divides is a lower, or an upper, bound of the rounding.\<close>

lemma round_mag_le_pow2:
  assumes a: "0 < a" and le: "a \<le> pow2 e" and q: "quantum a \<le> e"
  shows "round_mag a \<le> pow2 e"
proof -
  let ?q = "quantum a"
  have n: "pow2 (e - ?q) = of_int (2 ^ nat (e - ?q))" using q by (intro pow2_nat) simp
  have "a / pow2 ?q \<le> pow2 e / pow2 ?q"
    using le pow2_pos [of ?q] by (simp add: divide_right_mono)
  then have "a / pow2 ?q \<le> of_int (2 ^ nat (e - ?q))" by (simp only: pow2_diff n)
  from rhe_mono [OF this] have "round_half_even (a / pow2 ?q) \<le> 2 ^ nat (e - ?q)"
    by (simp only: rhe_of_int)
  then have "(of_int (round_half_even (a / pow2 ?q)) :: real) \<le> of_int (2 ^ nat (e - ?q))"
    by (simp only: of_int_le_iff)
  then have "of_int (round_half_even (a / pow2 ?q)) * pow2 ?q \<le> pow2 (e - ?q) * pow2 ?q"
    using pow2_pos [of ?q] by (simp only: n) (simp add: mult_right_mono)
  also have "\<dots> = pow2 e" using pow2_add [of "e - ?q" ?q] by simp
  finally show ?thesis by (simp only: round_mag_pos_eq [OF a])
qed

lemma round_mag_ge_pow2:
  assumes a: "0 < a" and le: "pow2 e \<le> a" and q: "quantum a \<le> e"
  shows "pow2 e \<le> round_mag a"
proof -
  let ?q = "quantum a"
  have n: "pow2 (e - ?q) = of_int (2 ^ nat (e - ?q))" using q by (intro pow2_nat) simp
  have "pow2 e / pow2 ?q \<le> a / pow2 ?q"
    using le pow2_pos [of ?q] by (simp add: divide_right_mono)
  then have "of_int (2 ^ nat (e - ?q)) \<le> a / pow2 ?q" by (simp only: pow2_diff n)
  from rhe_mono [OF this] have "2 ^ nat (e - ?q) \<le> round_half_even (a / pow2 ?q)"
    by (simp only: rhe_of_int)
  then have "(of_int (2 ^ nat (e - ?q)) :: real) \<le> of_int (round_half_even (a / pow2 ?q))"
    by (simp only: of_int_le_iff)
  then have "pow2 (e - ?q) * pow2 ?q \<le> of_int (round_half_even (a / pow2 ?q)) * pow2 ?q"
    using pow2_pos [of ?q] by (simp only: n) (simp add: mult_right_mono)
  moreover have "pow2 (e - ?q) * pow2 ?q = pow2 e" using pow2_add [of "e - ?q" ?q] by simp
  ultimately show ?thesis by (simp only: round_mag_pos_eq [OF a])
qed

lemma round_mag_mono:
  assumes "0 \<le> a" "a \<le> b"
  shows "round_mag a \<le> round_mag b"
proof (cases "a = 0")
  case True
  then show ?thesis using round_mag_nonneg [of b] assms by (simp add: round_mag_def)
next
  case False
  with assms have a: "0 < a" and b: "0 < b" by simp_all
  note qm = quantum_mono [OF a assms(2)]
  show ?thesis
  proof (cases "quantum a = quantum b")
    case True
    let ?q = "quantum b"
    have "a / pow2 ?q \<le> b / pow2 ?q"
      using assms(2) pow2_pos [of ?q] by (simp add: divide_right_mono)
    from rhe_mono [OF this]
    have "(of_int (round_half_even (a / pow2 ?q)) :: real) \<le> of_int (round_half_even (b / pow2 ?q))"
      by (simp only: of_int_le_iff)
    then have "of_int (round_half_even (a / pow2 ?q)) * pow2 ?q
        \<le> of_int (round_half_even (b / pow2 ?q)) * pow2 ?q"
      using pow2_pos [of ?q] by (simp add: mult_right_mono)
    then show ?thesis by (simp only: round_mag_pos_eq [OF a] round_mag_pos_eq [OF b] True)
  next
    case False
    with qm have lt: "quantum a < quantum b" by simp
    let ?e = "ilog2 b"
    have qb: "quantum b = ?e - 52"
      using lt by (simp add: quantum_def max_def split: if_splits)
    have "ilog2 a - 52 \<le> quantum a" by (simp add: quantum_def)
    with lt qb have ea: "ilog2 a + 1 \<le> ?e" by simp
    have "a < pow2 (ilog2 a + 1)" using ilog2_bounds [OF a] by simp
    also have "\<dots> \<le> pow2 ?e" using ea by (rule pow2_mono)
    finally have "a \<le> pow2 ?e" by simp
    moreover have "quantum a \<le> ?e" using lt qb by simp
    ultimately have "round_mag a \<le> pow2 ?e" by (rule round_mag_le_pow2 [OF a])
    moreover have "pow2 ?e \<le> round_mag b"
      using ilog2_bounds [OF b] qb by (intro round_mag_ge_pow2 [OF b]) simp_all
    ultimately show ?thesis by simp
  qed
qed

lemma to_double_not_NaN [simp]: "to_double q \<noteq> NaN"
  by (simp add: to_double_def Let_def)

lemma to_double_0 [simp]: "to_double 0 = Num 0"
  using pow2_pos [of 1024] by (simp add: to_double_def round_mag_def)

lemma js_le_refl: "x \<noteq> NaN \<Longrightarrow> js_le x x"
  by (cases x) simp_all

lemma js_le_trans: "js_le x y \<Longrightarrow> js_le y z \<Longrightarrow> js_le x z"
  by (cases x; cases y; cases z) simp_all

lemma js_le_PosInfinity [simp]: "js_le x PosInfinity = (x \<noteq> NaN)"
  by (cases x) simp_all

lemma js_le_NegInfinity [simp]: "js_le NegInfinity x = (x \<noteq> NaN)"
  by (cases x) simp_all

lemma js_le_not_NaN: "js_le x y \<Longrightarrow> x \<noteq> NaN \<and> y \<noteq> NaN"
  by (cases x; cases y) simp_all

lemma to_double_mono:
  assumes "a \<le> b"
  shows "js_le (to_double a) (to_double b)"
proof -
  note na = round_mag_nonneg [of "\<bar>a\<bar>"] and nb = round_mag_nonneg [of "\<bar>b\<bar>"]
  have z: "round_mag 0 = 0" by (simp add: round_mag_def)
  consider "0 \<le> a" | "a < 0" "0 \<le> b" | "b < 0" using assms by linarith
  then show ?thesis
  proof cases
    case 1
    with assms have "round_mag \<bar>a\<bar> \<le> round_mag \<bar>b\<bar>"
      by (intro round_mag_mono) simp_all
    with 1 assms na nb z pow2_pos [of 1024] show ?thesis
      by (cases "b = 0") (auto simp: to_double_def Let_def)
  next
    case 2
    with na nb z pow2_pos [of 1024] show ?thesis
      by (cases "b = 0") (auto simp: to_double_def Let_def)
  next
    case 3
    with assms have "round_mag \<bar>b\<bar> \<le> round_mag \<bar>a\<bar>"
      by (intro round_mag_mono) simp_all
    with 3 assms na nb show ?thesis
      by (auto simp: to_double_def Let_def)
  qed
qed

lemma to_double_nonneg: "0 \<le> q \<Longrightarrow> js_le (Num 0) (to_double q)"
  using to_double_mono [of 0 q] by simp

lemma to_double_nonpos: "q \<le> 0 \<Longrightarrow> js_le (to_double q) (Num 0)"
  using to_double_mono [of q 0] by simp

lemma js_add_mono_right: "js_le x y \<Longrightarrow> js_le (js_add (Num a) x) (js_add (Num a) y)"
  by (cases x; cases y) (simp_all add: to_double_mono)

lemma js_add_mono_left: "js_le x y \<Longrightarrow> js_le (js_add x (Num a)) (js_add y (Num a))"
  by (cases x; cases y) (simp_all add: to_double_mono)

lemma js_sub_mono_left: "js_le x y \<Longrightarrow> js_le (js_sub x (Num a)) (js_sub y (Num a))"
  by (simp add: js_sub_def js_add_mono_left)

lemma js_mul_mono_left:
  "0 < c \<Longrightarrow> js_le x y \<Longrightarrow> js_le (js_mul x (Num c)) (js_mul y (Num c))"
  by (cases x; cases y) (simp_all add: to_double_mono mult_right_mono)

lemma Math_min_mono_left: "js_le x y \<Longrightarrow> js_le (Math_min x (Num c)) (Math_min y (Num c))"
  by (cases x; cases y) auto

lemma Math_max_Num_0: "x \<noteq> NaN \<Longrightarrow> js_le (Num 0) (Math_max (Num 0) x)"
  by (cases x) auto

lemma fixed_int_mono:
  assumes "x \<le> y"
  shows "fixed_int x \<le> fixed_int y"
proof -
  consider "0 \<le> x" | "x < 0" "0 \<le> y" | "y < 0" using assms by linarith
  then show ?thesis
  proof cases
    case 1
    with assms have "\<lfloor>x * 100 + 1 / 2\<rfloor> \<le> \<lfloor>y * 100 + 1 / 2\<rfloor>"
      by (intro floor_mono) simp
    with 1 assms show ?thesis by (simp add: fixed_int_def)
  next
    case 2
    then have "fixed_int x \<le> 0" "0 \<le> fixed_int y"
      by (simp_all add: fixed_int_def)
    then show ?thesis by linarith
  next
    case 3
    with assms have "\<lfloor>(- y) * 100 + 1 / 2\<rfloor> \<le> \<lfloor>(- x) * 100 + 1 / 2\<rfloor>"
      by (intro floor_mono) simp
    with 3 assms show ?thesis by (simp add: fixed_int_def)
  qed
qed

lemma fix2_Num:
  "fix2 (Num x) = (if 10 ^ 21 \<le> \<bar>x\<bar> then to_double x else to_double (of_int (fixed_int x) / 100))"
  by (simp add: fix2_def)

lemma fixed_int_bounds: "\<bar>of_int (fixed_int x) / 100 - x\<bar> \<le> 1 / 200"
proof (cases "x < 0")
  case True
  let ?z = "(- x) * 100 + 1 / 2"
  have eq: "fixed_int x = - \<lfloor>?z\<rfloor>" using True by (simp add: fixed_int_def)
  have "of_int \<lfloor>?z\<rfloor> \<le> ?z" "?z < of_int \<lfloor>?z\<rfloor> + 1" by linarith+
  then show ?thesis unfolding eq of_int_minus by linarith
next
  case False
  let ?z = "x * 100 + 1 / 2"
  have eq: "fixed_int x = \<lfloor>?z\<rfloor>" using False by (simp add: fixed_int_def)
  have "of_int \<lfloor>?z\<rfloor> \<le> ?z" "?z < of_int \<lfloor>?z\<rfloor> + 1" by linarith+
  then show ?thesis unfolding eq by linarith
qed

lemma fix2_NaN_iff [simp]: "(fix2 x = NaN) = (x = NaN)"
  by (cases x) (simp_all add: fix2_Num, simp_all add: fix2_def)

lemma fix2_mono:
  assumes "js_le x y"
  shows "js_le (fix2 x) (fix2 y)"
proof (cases x)
  case (Num a)
  note xa = this
  show ?thesis
  proof (cases y)
    case (Num b)
    with xa assms have ab: "a \<le> b" by simp
    let ?fa = "of_int (fixed_int a) / 100 :: real" and ?fb = "of_int (fixed_int b) / 100 :: real"
    have fab: "?fa \<le> ?fb" using fixed_int_mono [OF ab] by simp
    have ba: "\<bar>?fa - a\<bar> \<le> 1 / 200" and bb: "\<bar>?fb - b\<bar> \<le> 1 / 200"
      by (rule fixed_int_bounds)+
    consider "\<bar>a\<bar> < 10 ^ 21" "\<bar>b\<bar> < 10 ^ 21"
      | "\<bar>a\<bar> < 10 ^ 21" "10 ^ 21 \<le> \<bar>b\<bar>"
      | "10 ^ 21 \<le> \<bar>a\<bar>" "\<bar>b\<bar> < 10 ^ 21"
      | "10 ^ 21 \<le> \<bar>a\<bar>" "10 ^ 21 \<le> \<bar>b\<bar>" by linarith
    then have "js_le (fix2 (Num a)) (fix2 (Num b))"
    proof cases
      case 1
      then show ?thesis using fab by (simp add: fix2_Num to_double_mono)
    next
      case 2
      with ab have "10 ^ 21 \<le> b" by linarith
      moreover have "?fa \<le> 10 ^ 21"
      proof -
        from 2 have "a * 100 + 1 / 2 < 10 ^ 23 + 1" by simp
        then have "\<lfloor>a * 100 + 1 / 2\<rfloor> < 10 ^ 23 + 1" by (simp only: floor_less_iff) simp
        then have "\<lfloor>a * 100 + 1 / 2\<rfloor> \<le> 10 ^ 23" by simp
        moreover have "fixed_int a \<le> \<lfloor>a * 100 + 1 / 2\<rfloor>"
          by (cases "a < 0") (simp_all add: fixed_int_def, linarith)
        ultimately have "fixed_int a \<le> 10 ^ 23" by linarith
        then have "(of_int (fixed_int a) :: real) \<le> of_int (10 ^ 23)" by (simp only: of_int_le_iff)
        then show ?thesis by simp
      qed
      ultimately have "?fa \<le> b" by linarith
      with 2 show ?thesis by (simp add: fix2_Num to_double_mono)
    next
      case 3
      with ab have "a \<le> - (10 ^ 21)" by linarith
      moreover have "- (10 ^ 21) \<le> ?fb"
      proof -
        from 3 have "(- b) * 100 + 1 / 2 < 10 ^ 23 + 1" by simp
        then have "\<lfloor>(- b) * 100 + 1 / 2\<rfloor> < 10 ^ 23 + 1" by (simp only: floor_less_iff) simp
        then have "\<lfloor>(- b) * 100 + 1 / 2\<rfloor> \<le> 10 ^ 23" by simp
        moreover have "- \<lfloor>(- b) * 100 + 1 / 2\<rfloor> \<le> fixed_int b"
          by (cases "b < 0") (simp_all add: fixed_int_def, linarith)
        ultimately have "- (10 ^ 23) \<le> fixed_int b" by linarith
        then have "(of_int (- (10 ^ 23)) :: real) \<le> of_int (fixed_int b)" by (simp only: of_int_le_iff)
        then show ?thesis by simp
      qed
      ultimately have "a \<le> ?fb" by linarith
      with 3 show ?thesis by (simp add: fix2_Num to_double_mono)
    next
      case 4
      then show ?thesis using ab by (simp add: fix2_Num to_double_mono)
    qed
    with xa Num show ?thesis by simp
  next
    case PosInfinity
    then have "fix2 y = PosInfinity" by (simp add: fix2_def)
    then show ?thesis by (simp add: xa)
  next
    case NegInfinity
    with xa assms show ?thesis by simp
  next
    case NaN
    with xa assms show ?thesis by simp
  qed
next
  case PosInfinity
  with assms show ?thesis by (cases y) (simp_all add: fix2_def)
next
  case NegInfinity
  then have "fix2 x = NegInfinity" by (simp add: fix2_def)
  moreover from assms have "y \<noteq> NaN" by (simp add: js_le_not_NaN)
  ultimately show ?thesis by simp
next
  case NaN
  with assms show ?thesis by simp
qed

section \<open>Evaluating the arithmetic\<close>

lemmas fl_eval = to_double_def round_mag_def quantum_def ilog2_def pow2_def
  round_half_even_def fixed_int_def Let_def bitlen.simps

lemma dec_6_2: "dec 6 2 = Num (1080863910568919 / 18014398509481984)"
  by (simp add: dec_def fl_eval)

lemma dec_15_3: "dec 15 3 = Num (1080863910568919 / 72057594037927936)"
  by (simp add: dec_def fl_eval)

lemma dec_10_2: "dec 10 2 = Num (3602879701896397 / 36028797018963968)"
  by (simp add: dec_def fl_eval)

lemma dec_25_2: "dec 25 2 = Num (1 / 4)"
  by (simp add: dec_def fl_eval)

lemma dec_30_2: "dec 30 2 = Num (5404319552844595 / 18014398509481984)"
  by (simp add: dec_def fl_eval)

lemma dec_325_3: "dec 325 3 = Num (5854679515581645 / 18014398509481984)"
  by (simp add: dec_def fl_eval)

lemma dec_35_2: "dec 35 2 = Num (3152519739159347 / 9007199254740992)"
  by (simp add: dec_def fl_eval)

lemmas dec_eval = dec_6_2 dec_15_3 dec_10_2 dec_25_2 dec_30_2 dec_325_3 dec_35_2

lemmas const_defs = NSSF_LEL_def NSSF_BWC_def NSSF_RATE_def KRA_MONTHLY_RELIEF_def
  fix2_def js_sub_def

lemmas stage_defs = taxableBenefits_of_def taxableBenefits_raw_def nssf_of_def nssf_raw_def
  nhif_of_def nhif_raw_def ahl_of_def ahl_raw_def taxableIncome_of_def
  incomeSubjectToPAYE_of_def paye_of_def

section \<open>Monotone stages\<close>

lemma nhif_of_mono:
  assumes "grossPay p = Num a" "grossPay p' = Num b" "a \<le> b"
  shows "js_le (nhif_of p) (nhif_of p')"
  unfolding nhif_of_def nhif_raw_def Let_def assms(1,2)
  by (rule fix2_mono) (use assms(3) in \<open>simp; linarith?\<close>)

lemma tier1_of_mono: "a \<le> b \<Longrightarrow> js_le (tier1_of a) (tier1_of b)"
  unfolding tier1_of_def NSSF_RATE_def NSSF_LEL_def dec_6_2
  by (intro js_add_mono_right js_mul_mono_left Math_min_mono_left) simp_all

lemma tier2_of_mono: "a \<le> b \<Longrightarrow> js_le (tier2_of a) (tier2_of b)"
  unfolding tier2_of_def NSSF_RATE_def NSSF_LEL_def NSSF_BWC_def dec_6_2
  by (intro js_sub_mono_left js_mul_mono_left Math_min_mono_left) simp_all

lemma tier1_of_6000: "6000 \<le> a \<Longrightarrow> tier1_of a = Num 360"
  by (simp add: tier1_of_def const_defs dec_eval fl_eval)

lemma tier2_of_6000: "tier2_of 6000 = Num 0"
  by (simp add: tier2_of_def const_defs dec_eval)

lemma nssf_of_eq:
  "grossPay p = Num a \<Longrightarrow> nssf_of p =
     fix2 (if use2025Tiers p then
             (if deductTier2 p \<and> 6000 < a then js_add (tier1_of a) (tier2_of a) else tier1_of a)
           else Num 200)"
  by (simp add: nssf_of_def nssf_raw_def tier1_of_def tier2_of_def Let_def NSSF_LEL_def)

lemma nssf_of_mono:
  assumes g: "grossPay p = Num a" and p': "p' = p\<lparr>grossPay := Num b\<rparr>" and ab: "a \<le> b"
  shows "js_le (nssf_of p) (nssf_of p')"
proof -
  have g': "grossPay p' = Num b" by (simp add: p')
  have sw: "use2025Tiers p' = use2025Tiers p" "deductTier2 p' = deductTier2 p" by (simp_all add: p')
  note t1 = tier1_of_mono [OF ab] and t2 = tier2_of_mono [OF ab]
  have c360: "to_double 360 = Num 360" by (simp add: fl_eval)
  have up: "6000 < x \<Longrightarrow> js_le (Num 360) (js_add (tier1_of x) (tier2_of x))" for x
  proof -
    assume x: "6000 < x"
    then have "js_le (tier2_of 6000) (tier2_of x)" by (intro tier2_of_mono) simp
    then have "js_le (Num 0) (tier2_of x)" by (simp only: tier2_of_6000)
    from js_add_mono_right [OF this, of 360] show ?thesis
      using x by (simp add: c360 tier1_of_6000)
  qed
  have "js_le
     (if use2025Tiers p then
        (if deductTier2 p \<and> 6000 < a then js_add (tier1_of a) (tier2_of a) else tier1_of a)
      else Num 200)
     (if use2025Tiers p then
        (if deductTier2 p \<and> 6000 < b then js_add (tier1_of b) (tier2_of b) else tier1_of b)
      else Num 200)"
  proof (cases "use2025Tiers p")
    case False
    then show ?thesis by simp
  next
    case True
    consider "\<not> (deductTier2 p \<and> 6000 < b)" | "deductTier2 p" "6000 < b" "a \<le> 6000"
      | "deductTier2 p" "6000 < a" by linarith
    then show ?thesis
    proof cases
      case 1
      with ab have "\<not> (deductTier2 p \<and> 6000 < a)" by auto
      with 1 True t1 show ?thesis by auto
    next
      case 2
      then have "js_le (tier1_of a) (tier1_of 6000)" by (intro tier1_of_mono)
      then have "js_le (tier1_of a) (Num 360)" by (simp add: tier1_of_6000)
      from js_le_trans [OF this up [OF 2(2)]] 2 True show ?thesis by simp
    next
      case 3
      with ab have b: "6000 < b" by simp
      from 3 b have "tier1_of a = Num 360" "tier1_of b = Num 360" by (simp_all add: tier1_of_6000)
      with js_add_mono_right [OF t2, of 360] 3 b True show ?thesis by simp
    qed
  qed
  from fix2_mono [OF this] show ?thesis
    by (simp only: nssf_of_eq [OF g] nssf_of_eq [OF g'] sw)
qed

lemma taxBeforeRelief_of_bands:
  "taxBeforeRelief_of ti =
     (if js_le ti (Num 24000) then js_mul ti (dec 10 2)
      else if js_le ti (Num 32333) then band_tax full_band1 24000 (dec 25 2) ti
      else if js_le ti (Num 500000) then band_tax full_band2 32333 (dec 30 2) ti
      else if js_le ti (Num 800000) then band_tax full_band3 500000 (dec 325 3) ti
      else band_tax full_band4 800000 (dec 35 2) ti)"
  by (simp add: taxBeforeRelief_of_def band_tax_def full_band1_def full_band2_def
      full_band3_def full_band4_def)

lemma full_band1: "full_band1 = Num 2400"
  by (simp add: full_band1_def dec_eval fl_eval)
lemma full_band2: "full_band2 = Num (17933 / 4)"
  by (simp add: full_band2_def full_band1 dec_eval fl_eval)
lemma full_band3: "full_band3 = Num (4974718026042573 / 34359738368)"
  by (simp add: full_band3_def full_band2 dec_eval fl_eval)
lemma full_band4: "full_band4 = Num (8324792516922573 / 34359738368)"
  by (simp add: full_band4_def full_band3 dec_eval fl_eval)

lemma band_tax_mono:
  assumes "below = Num c" "rate = Num r" "0 < r" "js_le t1 t2"
  shows "js_le (band_tax below lower rate t1) (band_tax below lower rate t2)"
  unfolding band_tax_def assms(1,2)
  by (intro js_add_mono_right js_mul_mono_left js_sub_mono_left assms)

lemma band_tax_lower:
  assumes "below = Num c" "rate = Num r" "to_double c = Num c"
  shows "band_tax below lower rate (Num lower) = Num c"
  by (simp add: band_tax_def assms js_sub_def)

lemma js_le_total: "x \<noteq> NaN \<Longrightarrow> \<not> js_le x (Num b) \<Longrightarrow> js_le (Num b) x"
  by (cases x) simp_all

lemma band1_upper: "js_le t (Num 24000) \<Longrightarrow> js_le (js_mul t (dec 10 2)) (Num 2400)"
proof -
  assume "js_le t (Num 24000)"
  then have "js_le (js_mul t (dec 10 2)) (js_mul (Num 24000) (dec 10 2))"
    unfolding dec_10_2 by (intro js_mul_mono_left) simp_all
  then show ?thesis using full_band1 by (simp add: full_band1_def)
qed

lemma band2_bounds:
  "js_le (Num 24000) t \<Longrightarrow> js_le (Num 2400) (band_tax full_band1 24000 (dec 25 2) t)"
  "js_le t (Num 32333) \<Longrightarrow> js_le (band_tax full_band1 24000 (dec 25 2) t) (Num (17933 / 4))"
proof -
  have lo: "band_tax full_band1 24000 (dec 25 2) (Num 24000) = Num 2400"
    by (rule band_tax_lower [OF full_band1 dec_25_2]) (simp add: fl_eval)
  have up: "band_tax full_band1 24000 (dec 25 2) (Num 32333) = Num (17933 / 4)"
    using full_band2 by (simp add: band_tax_def full_band2_def js_sub_def fl_eval)
  show "js_le (Num 24000) t \<Longrightarrow> js_le (Num 2400) (band_tax full_band1 24000 (dec 25 2) t)"
    using band_tax_mono [OF full_band1 dec_25_2, of "Num 24000" t 24000] by (simp add: lo)
  show "js_le t (Num 32333) \<Longrightarrow> js_le (band_tax full_band1 24000 (dec 25 2) t) (Num (17933 / 4))"
    using band_tax_mono [OF full_band1 dec_25_2, of t "Num 32333" 24000] by (simp add: up)
qed

lemma band3_bounds:
  "js_le (Num 32333) t \<Longrightarrow> js_le (Num (17933 / 4)) (band_tax full_band2 32333 (dec 30 2) t)"
  "js_le t (Num 500000) \<Longrightarrow>
     js_le (band_tax full_band2 32333 (dec 30 2) t) (Num (4974718026042573 / 34359738368))"
proof -
  have lo: "band_tax full_band2 32333 (dec 30 2) (Num 32333) = Num (17933 / 4)"
    by (rule band_tax_lower [OF full_band2 dec_30_2]) (simp add: fl_eval)
  have up: "band_tax full_band2 32333 (dec 30 2) (Num 500000)
      = Num (4974718026042573 / 34359738368)"
    using full_band3 by (simp add: band_tax_def full_band3_def js_sub_def fl_eval)
  show "js_le (Num 32333) t \<Longrightarrow> js_le (Num (17933 / 4)) (band_tax full_band2 32333 (dec 30 2) t)"
    using band_tax_mono [OF full_band2 dec_30_2, of "Num 32333" t 32333] by (simp add: lo)
  show "js_le t (Num 500000) \<Longrightarrow>
     js_le (band_tax full_band2 32333 (dec 30 2) t) (Num (4974718026042573 / 34359738368))"
    using band_tax_mono [OF full_band2 dec_30_2, of t "Num 500000" 32333] by (simp add: up)
qed

lemma band4_bounds:
  "js_le (Num 500000) t \<Longrightarrow>
     js_le (Num (4974718026042573 / 34359738368)) (band_tax full_band3 500000 (dec 325 3) t)"
  "js_le t (Num 800000) \<Longrightarrow>
     js_le (band_tax full_band3 500000 (dec 325 3) t) (Num (8324792516922573 / 34359738368))"
proof -
  have lo: "band_tax full_band3 500000 (dec 325 3) (Num 500000)
      = Num (4974718026042573 / 34359738368)"
    by (rule band_tax_lower [OF full_band3 dec_325_3]) (simp add: fl_eval)
  have up: "band_tax full_band3 500000 (dec 325 3) (Num 800000)
      = Num (8324792516922573 / 34359738368)"
    using full_band4 by (simp add: band_tax_def full_band4_def js_sub_def fl_eval)
  show "js_le (Num 500000) t \<Longrightarrow>
     js_le (Num (4974718026042573 / 34359738368)) (band_tax full_band3 500000 (dec 325 3) t)"
    using band_tax_mono [OF full_band3 dec_325_3, of "Num 500000" t 500000] by (simp add: lo)
  show "js_le t (Num 800000) \<Longrightarrow>
     js_le (band_tax full_band3 500000 (dec 325 3) t) (Num (8324792516922573 / 34359738368))"
    using band_tax_mono [OF full_band3 dec_325_3, of t "Num 800000" 500000] by (simp add: up)
qed

lemma band5_lower:
  "js_le (Num 800000) t \<Longrightarrow>
     js_le (Num (8324792516922573 / 34359738368)) (band_tax full_band4 800000 (dec 35 2) t)"
proof -
  have lo: "band_tax full_band4 800000 (dec 35 2) (Num 800000)
      = Num (8324792516922573 / 34359738368)"
    by (rule band_tax_lower [OF full_band4 dec_35_2]) (simp add: fl_eval)
  show "js_le (Num 800000) t \<Longrightarrow>
     js_le (Num (8324792516922573 / 34359738368)) (band_tax full_band4 800000 (dec 35 2) t)"
    using band_tax_mono [OF full_band4 dec_35_2, of "Num 800000" t 800000] by (simp add: lo)
qed

text \<open>Below a band boundary the tax is at most the tax of the full bands, above it at least.\<close>

lemma taxBeforeRelief_of_below:
  "js_le t (Num 24000) \<Longrightarrow> js_le (taxBeforeRelief_of t) (Num 2400)"
  "js_le t (Num 32333) \<Longrightarrow> js_le (taxBeforeRelief_of t) (Num (17933 / 4))"
  "js_le t (Num 500000) \<Longrightarrow>
     js_le (taxBeforeRelief_of t) (Num (4974718026042573 / 34359738368))"
  "js_le t (Num 800000) \<Longrightarrow>
     js_le (taxBeforeRelief_of t) (Num (8324792516922573 / 34359738368))"
proof -
  show 1: "js_le t (Num 24000) \<Longrightarrow> js_le (taxBeforeRelief_of t) (Num 2400)"
    by (simp add: taxBeforeRelief_of_bands band1_upper)
  show 2: "js_le t (Num 32333) \<Longrightarrow> js_le (taxBeforeRelief_of t) (Num (17933 / 4))"
  proof (cases "js_le t (Num 24000)")
    case True
    from js_le_trans [OF 1 [OF True], of "Num (17933 / 4)"] show ?thesis by simp
  next
    case False
    assume "js_le t (Num 32333)"
    with False show ?thesis by (simp add: taxBeforeRelief_of_bands band2_bounds)
  qed
  show 3: "js_le t (Num 500000) \<Longrightarrow>
     js_le (taxBeforeRelief_of t) (Num (4974718026042573 / 34359738368))"
  proof (cases "js_le t (Num 32333)")
    case True
    from js_le_trans [OF 2 [OF True], of "Num (4974718026042573 / 34359738368)"]
    show ?thesis by simp
  next
    case False
    assume "js_le t (Num 500000)"
    moreover from False have "\<not> js_le t (Num 24000)"
      using js_le_trans [of t "Num 24000" "Num 32333"] by auto
    ultimately show ?thesis using False by (simp add: taxBeforeRelief_of_bands band3_bounds)
  qed
  show "js_le t (Num 800000) \<Longrightarrow>
     js_le (taxBeforeRelief_of t) (Num (8324792516922573 / 34359738368))"
  proof (cases "js_le t (Num 500000)")
    case True
    from js_le_trans [OF 3 [OF True], of "Num (8324792516922573 / 34359738368)"]
    show ?thesis by simp
  next
    case False
    assume "js_le t (Num 800000)"
    moreover from False have "\<not> js_le t (Num 24000)" "\<not> js_le t (Num 32333)"
      using js_le_trans [of t "Num 24000" "Num 500000"]
        js_le_trans [of t "Num 32333" "Num 500000"] by auto
    ultimately show ?thesis using False by (simp add: taxBeforeRelief_of_bands band4_bounds)
  qed
qed

lemma taxBeforeRelief_of_above:
  assumes "t \<noteq> NaN"
  shows "\<not> js_le t (Num 800000) \<Longrightarrow>
           js_le (Num (8324792516922573 / 34359738368)) (taxBeforeRelief_of t)"
    and "\<not> js_le t (Num 500000) \<Longrightarrow>
           js_le (Num (4974718026042573 / 34359738368)) (taxBeforeRelief_of t)"
    and "\<not> js_le t (Num 32333) \<Longrightarrow> js_le (Num (17933 / 4)) (taxBeforeRelief_of t)"
    and "\<not> js_le t (Num 24000) \<Longrightarrow> js_le (Num 2400) (taxBeforeRelief_of t)"
proof -
  have down: "\<not> js_le t (Num b) \<Longrightarrow> a \<le> b \<Longrightarrow> \<not> js_le t (Num a)" for a b
    using js_le_trans [of t "Num a" "Num b"] by auto
  show 4: "\<not> js_le t (Num 800000) \<Longrightarrow>
           js_le (Num (8324792516922573 / 34359738368)) (taxBeforeRelief_of t)"
  proof -
    assume a: "\<not> js_le t (Num 800000)"
    from down [OF a, of 24000] down [OF a, of 32333] down [OF a, of 500000] a
    show ?thesis
      by (simp add: taxBeforeRelief_of_bands band5_lower js_le_total [OF assms a])
  qed
  show 3: "\<not> js_le t (Num 500000) \<Longrightarrow>
           js_le (Num (4974718026042573 / 34359738368)) (taxBeforeRelief_of t)"
  proof (cases "js_le t (Num 800000)")
    case False
    from js_le_trans [OF _ 4 [OF False], of "Num (4974718026042573 / 34359738368)"]
    show ?thesis by simp
  next
    case True
    assume a: "\<not> js_le t (Num 500000)"
    from down [OF a, of 24000] down [OF a, of 32333] a True
    show ?thesis
      by (simp add: taxBeforeRelief_of_bands band4_bounds js_le_total [OF assms a])
  qed
  show 2: "\<not> js_le t (Num 32333) \<Longrightarrow> js_le (Num (17933 / 4)) (taxBeforeRelief_of t)"
  proof (cases "js_le t (Num 500000)")
    case False
    from js_le_trans [OF _ 3 [OF False], of "Num (17933 / 4)"]
    show ?thesis by simp
  next
    case True
    assume a: "\<not> js_le t (Num 32333)"
    from down [OF a, of 24000] a True
    show ?thesis
      by (simp add: taxBeforeRelief_of_bands band3_bounds js_le_total [OF assms a])
  qed
  show "\<not> js_le t (Num 24000) \<Longrightarrow> js_le (Num 2400) (taxBeforeRelief_of t)"
  proof (cases "js_le t (Num 32333)")
    case False
    from js_le_trans [OF _ 2 [OF False], of "Num 2400"]
    show ?thesis by simp
  next
    case True
    assume a: "\<not> js_le t (Num 24000)"
    with True show ?thesis
      by (simp add: taxBeforeRelief_of_bands band2_bounds js_le_total [OF assms a])
  qed
qed

lemma taxBeforeRelief_of_mono:
  assumes "js_le t1 t2"
  shows "js_le (taxBeforeRelief_of t1) (taxBeforeRelief_of t2)"
proof -
  from assms have nn: "t1 \<noteq> NaN" "t2 \<noteq> NaN" by (simp_all add: js_le_not_NaN)
  have earlier: "js_le t2 (Num b) \<Longrightarrow> js_le t1 (Num b)" for b
    using js_le_trans [OF assms] by simp
  note below = taxBeforeRelief_of_below [of t1] and above = taxBeforeRelief_of_above [OF nn(2)]
  consider
      (x1) "js_le t1 (Num 24000)" "\<not> js_le t2 (Num 24000)"
    | (x2) "js_le t1 (Num 32333)" "\<not> js_le t2 (Num 32333)"
    | (x3) "js_le t1 (Num 500000)" "\<not> js_le t2 (Num 500000)"
    | (x4) "js_le t1 (Num 800000)" "\<not> js_le t2 (Num 800000)"
    | (same) "js_le t1 (Num 24000) = js_le t2 (Num 24000)"
        "js_le t1 (Num 32333) = js_le t2 (Num 32333)"
        "js_le t1 (Num 500000) = js_le t2 (Num 500000)"
        "js_le t1 (Num 800000) = js_le t2 (Num 800000)"
    using earlier by blast
  then show ?thesis
  proof cases
    case x1
    from js_le_trans [OF below(1) [OF x1(1)] above(4) [OF x1(2)]] show ?thesis .
  next
    case x2
    from js_le_trans [OF below(2) [OF x2(1)] above(3) [OF x2(2)]] show ?thesis .
  next
    case x3
    from js_le_trans [OF below(3) [OF x3(1)] above(2) [OF x3(2)]] show ?thesis .
  next
    case x4
    from js_le_trans [OF below(4) [OF x4(1)] above(1) [OF x4(2)]] show ?thesis .
  next
    case same
    have m1: "js_le (js_mul t1 (dec 10 2)) (js_mul t2 (dec 10 2))"
      unfolding dec_10_2 by (intro js_mul_mono_left assms) simp
    note m2 = band_tax_mono [OF full_band1 dec_25_2 _ assms, of 24000]
      and m3 = band_tax_mono [OF full_band2 dec_30_2 _ assms, of 32333]
      and m4 = band_tax_mono [OF full_band3 dec_325_3 _ assms, of 500000]
      and m5 = band_tax_mono [OF full_band4 dec_35_2 _ assms, of 800000]
    show ?thesis
      unfolding taxBeforeRelief_of_bands same
      using m1 m2 m3 m4 m5 by simp
  qed
qed

lemma Math_max_mono_right: "js_le x y \<Longrightarrow> js_le (Math_max (Num c) x) (Math_max (Num c) y)"
  by (cases x; cases y) auto

lemma paye_of_mono: "js_le t1 t2 \<Longrightarrow> js_le (paye_of t1) (paye_of t2)"
  unfolding paye_of_def KRA_MONTHLY_RELIEF_def
  by (intro fix2_mono Math_max_mono_right js_sub_mono_left taxBeforeRelief_of_mono)

section \<open>The bracket example\<close>

lemma example_taxableBenefits: "taxableBenefits_of example_50000 = Num 0"
  by (simp add: stage_defs example_50000_def const_defs fl_eval)

lemma example_nssf: "nssf_of example_50000 = Num 1080"
  by (simp add: stage_defs example_50000_def const_defs dec_eval fl_eval)

lemma example_nhif: "nhif_of example_50000 = Num 1200"
  by (simp add: stage_defs example_50000_def const_defs fl_eval)

lemma example_ahl: "ahl_of example_50000 = Num 750"
  by (simp add: stage_defs example_50000_def const_defs dec_eval fl_eval)

lemma example_taxableIncome:
  "taxableIncome_of example_50000 (Num 0) (Num 1080) (Num 1200) (Num 750) = Num 46970"
  by (simp add: stage_defs example_50000_def const_defs fl_eval)

lemma example_taxBeforeRelief:
  "taxBeforeRelief_of (Num 46970) = Num (1219681376744243 / 137438953472)"
  by (simp add: taxBeforeRelief_of_def const_defs dec_eval fl_eval)

lemma example_paye: "paye_of (Num 46970) = Num (3559311553645773 / 549755813888)"
  by (simp add: paye_of_def example_taxBeforeRelief const_defs fl_eval)

lemma example_bracket_tax:
  "to_double (24000 * (10 / 100) + 8333 * (25 / 100) + (46970 - 32333) * (30 / 100) - 2400)
     = Num (3559311553645773 / 549755813888)"
  by (simp add: fl_eval)

lemma example_paye_text: "toFixed2 (Num (3559311553645773 / 549755813888)) = Fixed2 647435"
  by (simp add: fixed_int_def)

text \<open>
  Claim C1. For a gross pay of 50000, no benefits, pension, other deductions, housing value
  or rent, not housed, and the four toggles on, \<open>calculatePAYE\<close> returns an NSSF
  contribution of 1080, a health levy of 1200, a housing levy of 750 and a taxable income of
  46970; the income tax is the tax of the bands on 46970,
  \<open>24000 * 0.10 + 8333 * 0.25 + (46970 - 32333) * 0.30\<close>, less the relief of 2400, to the
  cent: it is the double nearest to that amount, and its text with two decimals is
  \<^verbatim>\<open>6474.35\<close>.
\<close>

theorem bracket_example:
  "nssf (calculatePAYE example_50000) = Num 1080 \<and>
   nhif (calculatePAYE example_50000) = Num 1200 \<and>
   ahl (calculatePAYE example_50000) = Num 750 \<and>
   taxableIncome (calculatePAYE example_50000) = Num 46970 \<and>
   paye (calculatePAYE example_50000) =
     to_double (24000 * (10 / 100) + 8333 * (25 / 100) + (46970 - 32333) * (30 / 100) - 2400) \<and>
   toFixed2 (paye (calculatePAYE example_50000)) = Fixed2 647435"
  unfolding example_bracket_tax
  by (simp add: calculatePAYE_def Let_def example_taxableBenefits example_nssf example_nhif
      example_ahl example_taxableIncome example_paye fixed_int_def)

section \<open>The fields of the result\<close>

lemma calculatePAYE_fields:
  "taxableBenefits (calculatePAYE p) = taxableBenefits_of p"
  "nssf (calculatePAYE p) = nssf_of p"
  "nhif (calculatePAYE p) = nhif_of p"
  "ahl (calculatePAYE p) = ahl_of p"
  "taxableIncome (calculatePAYE p) =
     taxableIncome_of p (taxableBenefits_of p) (nssf_of p) (nhif_of p) (ahl_of p)"
  "paye (calculatePAYE p) = paye_of (taxableIncome (calculatePAYE p))"
  "totalDeductions (calculatePAYE p) =
     fix2 (js_add (js_add (js_add (js_add (js_add (paye (calculatePAYE p)) (nssf_of p))
       (nhif_of p)) (ahl_of p)) (pension p)) (allowableDeductions p))"
  "netPay (calculatePAYE p) = fix2 (js_sub (grossPay p) (totalDeductions (calculatePAYE p)))"
  "personalReliefUsed (calculatePAYE p) = Num 2400"
  by (simp_all add: calculatePAYE_def Let_def KRA_MONTHLY_RELIEF_def)

lemma valid_example_50000: "valid_input example_50000"
  by (simp add: valid_input_def example_50000_def is_double_def fl_eval)

lemma valid_example_99999: "valid_input example_99999"
  by (simp add: valid_input_def example_99999_def example_50000_def is_double_def fl_eval)

lemma valid_example_100000: "valid_input example_100000"
  by (simp add: valid_input_def example_100000_def example_50000_def is_double_def fl_eval)

lemma fix2_int_eval:
  "fix2 (Num 0) = Num 0" "fix2 (Num 150) = Num 150" "fix2 (Num 200) = Num 200"
  "fix2 (Num 300) = Num 300" "fix2 (Num 400) = Num 400" "fix2 (Num 500) = Num 500"
  "fix2 (Num 600) = Num 600" "fix2 (Num 750) = Num 750" "fix2 (Num 850) = Num 850"
  "fix2 (Num 900) = Num 900" "fix2 (Num 950) = Num 950" "fix2 (Num 1000) = Num 1000"
  "fix2 (Num 1100) = Num 1100" "fix2 (Num 1200) = Num 1200" "fix2 (Num 1300) = Num 1300"
  "fix2 (Num 1400) = Num 1400" "fix2 (Num 1500) = Num 1500" "fix2 (Num 1600) = Num 1600"
  "fix2 (Num 1700) = Num 1700" "fix2 (Num 360) = Num 360" "fix2 (Num 1080) = Num 1080"
  by (simp_all add: fix2_def fl_eval)

lemma nhif_of_value:
  "grossPay p = Num a \<Longrightarrow> nhif_of p = Num
     (if a \<le> 5999 then 150 else if a \<le> 7999 then 300 else if a \<le> 11999 then 400
      else if a \<le> 14999 then 500 else if a \<le> 19999 then 600 else if a \<le> 24999 then 750
      else if a \<le> 29999 then 850 else if a \<le> 34999 then 900 else if a \<le> 39999 then 950
      else if a \<le> 44999 then 1000 else if a \<le> 49999 then 1100 else if a \<le> 59999 then 1200
      else if a \<le> 69999 then 1300 else if a \<le> 79999 then 1400 else if a \<le> 89999 then 1500
      else if a \<le> 99999 then 1600 else 1700)"
  by (simp add: nhif_of_def nhif_raw_def fix2_int_eval)

text \<open>
  Claim C5. For a gross pay that is not negative the health levy is given by exactly one band
  of the table (the bands are disjoint and cover every gross pay), and it depends on no
  other field of the input.
\<close>

theorem health_levy_bands:
  assumes "grossPay p = Num a" and "0 \<le> a"
  shows "(a \<le> 5999 \<longrightarrow> nhif (calculatePAYE p) = Num 150) \<and>
         (5999 < a \<and> a \<le> 7999 \<longrightarrow> nhif (calculatePAYE p) = Num 300) \<and>
         (7999 < a \<and> a \<le> 11999 \<longrightarrow> nhif (calculatePAYE p) = Num 400) \<and>
         (11999 < a \<and> a \<le> 14999 \<longrightarrow> nhif (calculatePAYE p) = Num 500) \<and>
         (14999 < a \<and> a \<le> 19999 \<longrightarrow> nhif (calculatePAYE p) = Num 600) \<and>
         (19999 < a \<and> a \<le> 24999 \<longrightarrow> nhif (calculatePAYE p) = Num 750) \<and>
         (24999 < a \<and> a \<le> 29999 \<longrightarrow> nhif (calculatePAYE p) = Num 850) \<and>
         (29999 < a \<and> a \<le> 34999 \<longrightarrow> nhif (calculatePAYE p) = Num 900) \<and>
         (34999 < a \<and> a \<le> 39999 \<longrightarrow> nhif (calculatePAYE p) = Num 950) \<and>
         (39999 < a \<and> a \<le> 44999 \<longrightarrow> nhif (calculatePAYE p) = Num 1000) \<and>
         (44999 < a \<and> a \<le> 49999 \<longrightarrow> nhif (calculatePAYE p) = Num 1100) \<and>
         (49999 < a \<and> a \<le> 59999 \<longrightarrow> nhif (calculatePAYE p) = Num 1200) \<and>
         (59999 < a \<and> a \<le> 69999 \<longrightarrow> nhif (calculatePAYE p) = Num 1300) \<and>
         (69999 < a \<and> a \<le> 79999 \<longrightarrow> nhif (calculatePAYE p) = Num 1400) \<and>
         (79999 < a \<and> a \<le> 89999 \<longrightarrow> nhif (calculatePAYE p) = Num 1500) \<and>
         (89999 < a \<and> a \<le> 99999 \<longrightarrow> nhif (calculatePAYE p) = Num 1600) \<and>
         (99999 < a \<longrightarrow> nhif (calculatePAYE p) = Num 1700) \<and>
         (\<forall>p'. grossPay p' = grossPay p \<longrightarrow> nhif (calculatePAYE p') = nhif (calculatePAYE p))"
proof -
  note nh = calculatePAYE_fields(3) nhif_of_value [OF assms(1)]
  have b0: "a \<le> 5999 \<longrightarrow> nhif (calculatePAYE p) = Num 150"
    unfolding nh by simp
  have b1: "5999 < a \<and> a \<le> 7999 \<longrightarrow> nhif (calculatePAYE p) = Num 300"
    unfolding nh by simp
  have b2: "7999 < a \<and> a \<le> 11999 \<longrightarrow> nhif (calculatePAYE p) = Num 400"
    unfolding nh by simp
  have b3: "11999 < a \<and> a \<le> 14999 \<longrightarrow> nhif (calculatePAYE p) = Num 500"
    unfolding nh by simp
  have b4: "14999 < a \<and> a \<le> 19999 \<longrightarrow> nhif (calculatePAYE p) = Num 600"
    unfolding nh by simp
  have b5: "19999 < a \<and> a \<le> 24999 \<longrightarrow> nhif (calculatePAYE p) = Num 750"
    unfolding nh by simp
  have b6: "24999 < a \<and> a \<le> 29999 \<longrightarrow> nhif (calculatePAYE p) = Num 850"
    unfolding nh by simp
  have b7: "29999 < a \<and> a \<le> 34999 \<longrightarrow> nhif (calculatePAYE p) = Num 900"
    unfolding nh by simp
  have b8: "34999 < a \<and> a \<le> 39999 \<longrightarrow> nhif (calculatePAYE p) = Num 950"
    unfolding nh by simp
  have b9: "39999 < a \<and> a \<le> 44999 \<longrightarrow> nhif (calculatePAYE p) = Num 1000"
    unfolding nh by simp
  have b10: "44999 < a \<and> a \<le> 49999 \<longrightarrow> nhif (calculatePAYE p) = Num 1100"
    unfolding nh by simp
  have b11: "49999 < a \<and> a \<le> 59999 \<longrightarrow> nhif (calculatePAYE p) = Num 1200"
    unfolding nh by simp
  have b12: "59999 < a \<and> a \<le> 69999 \<longrightarrow> nhif (calculatePAYE p) = Num 1300"
    unfolding nh by simp
  have b13: "69999 < a \<and> a \<le> 79999 \<longrightarrow> nhif (calculatePAYE p) = Num 1400"
    unfolding nh by simp
  have b14: "79999 < a \<and> a \<le> 89999 \<longrightarrow> nhif (calculatePAYE p) = Num 1500"
    unfolding nh by simp
  have b15: "89999 < a \<and> a \<le> 99999 \<longrightarrow> nhif (calculatePAYE p) = Num 1600"
    unfolding nh by simp
  have b16: "99999 < a \<longrightarrow> nhif (calculatePAYE p) = Num 1700"
    unfolding nh by simp
  have same: "\<forall>p'. grossPay p' = grossPay p \<longrightarrow> nhif (calculatePAYE p') = nhif (calculatePAYE p)"
    by (simp add: calculatePAYE_fields nhif_of_def nhif_raw_def)
  from b0 b1 b2 b3 b4 b5 b6 b7 b8 b9 b10 b11 b12 b13 b14 b15 b16 same show ?thesis by (intro conjI)
qed

theorem health_levy_bands_witness:
  "grossPay example_50000 = Num 50000 \<and> (0::real) \<le> 50000 \<and>
   nhif (calculatePAYE example_50000) = Num 1200"
  using health_levy_bands [of example_50000 50000] by (simp add: example_50000_def)

lemma valid_example_negative_net: "valid_input example_negative_net"
  by (simp add: valid_input_def example_negative_net_def example_50000_def is_double_def fl_eval)

lemma negative_net_stages:
  "taxableBenefits_of example_negative_net = Num 0"
  "nssf_of example_negative_net = Num 60"
  "nhif_of example_negative_net = Num 150"
  "ahl_of example_negative_net = Num 15"
  by (simp_all add: stage_defs example_negative_net_def example_50000_def const_defs
      dec_eval fl_eval)

lemma negative_net_taxableIncome:
  "taxableIncome_of example_negative_net (Num 0) (Num 60) (Num 150) (Num 15) = Num 0"
  by (simp add: stage_defs example_negative_net_def example_50000_def const_defs fl_eval)

lemma paye_of_0: "paye_of (Num 0) = Num 0"
  by (simp add: paye_of_def taxBeforeRelief_of_def const_defs dec_eval fl_eval)

lemma negative_net_pay: "netPay (calculatePAYE example_negative_net) = Num (- 4225)"
  unfolding calculatePAYE_fields negative_net_stages negative_net_taxableIncome paye_of_0
  by (simp add: example_negative_net_def example_50000_def const_defs fl_eval)

text \<open>
  Claim C3. The total deductions are the income tax, the contribution, the health levy, the
  housing levy, the full pension contribution and the full other deductions, added in this
  order and rounded to two decimals; the net pay is the gross pay less the total
  deductions, rounded to two decimals and not clamped: it is negative when the deductions
  exceed the gross pay, as for a gross pay of 1000 with a pension contribution of 5000.
\<close>

theorem total_deductions_and_net_pay:
  "totalDeductions (calculatePAYE p) =
     fix2 (js_add (js_add (js_add (js_add (js_add (paye (calculatePAYE p))
       (nssf (calculatePAYE p))) (nhif (calculatePAYE p))) (ahl (calculatePAYE p)))
       (pension p)) (allowableDeductions p)) \<and>
   netPay (calculatePAYE p) = fix2 (js_sub (grossPay p) (totalDeductions (calculatePAYE p))) \<and>
   valid_input example_negative_net \<and>
   netPay (calculatePAYE example_negative_net) = Num (- 4225)"
  using valid_example_negative_net negative_net_pay
  by (simp add: calculatePAYE_fields)

theorem total_deductions_and_net_pay_witness:
  "totalDeductions (calculatePAYE example_negative_net) = Num 5225 \<and>
   netPay (calculatePAYE example_negative_net) = Num (- 4225)"
  using total_deductions_and_net_pay [of example_negative_net]
  unfolding calculatePAYE_fields negative_net_stages negative_net_taxableIncome paye_of_0
  by (simp add: example_negative_net_def example_50000_def const_defs fl_eval)

text \<open>
  Claim C9. The relief reported in the result is the constant 2400 for every input, also when
  the tax before relief is below 2400: the income tax is then 0, less than 2400 of relief was
  used, and the result still reports 2400.
\<close>

theorem relief_reported_is_constant:
  "personalReliefUsed (calculatePAYE p) = Num 2400 \<and>
   (js_lt (taxBeforeRelief_of (taxableIncome (calculatePAYE p))) (Num 2400) \<longrightarrow>
      paye (calculatePAYE p) = Num 0)"
proof -
  have "paye_of t = Num 0" if "js_lt (taxBeforeRelief_of t) (Num 2400)" for t
  proof -
    have "js_le (js_sub (taxBeforeRelief_of t) (Num 2400)) (Num 0)"
    proof (cases "taxBeforeRelief_of t")
      case (Num x)
      with that have "x - 2400 \<le> 0" by simp
      from to_double_nonpos [OF this] Num show ?thesis by (simp add: js_sub_def)
    qed (use that in \<open>simp_all add: js_sub_def\<close>)
    then have "Math_max (Num 0) (js_sub (taxBeforeRelief_of t) (Num 2400)) = Num 0"
      by (cases "js_sub (taxBeforeRelief_of t) (Num 2400)") auto
    then show ?thesis by (simp add: paye_of_def KRA_MONTHLY_RELIEF_def fix2_int_eval)
  qed
  then show ?thesis by (simp add: calculatePAYE_fields)
qed

lemma example_10000_stages:
  "taxableBenefits_of example_10000 = Num 0"
  "nssf_of example_10000 = Num 600"
  "nhif_of example_10000 = Num 400"
  "ahl_of example_10000 = Num 150"
  by (simp_all add: stage_defs example_10000_def example_50000_def const_defs
      dec_eval fl_eval)

lemma example_10000_taxableIncome:
  "taxableIncome_of example_10000 (Num 0) (Num 600) (Num 400) (Num 150) = Num 8850"
  by (simp add: stage_defs example_10000_def example_50000_def const_defs fl_eval)

lemma example_10000_taxBeforeRelief: "taxBeforeRelief_of (Num 8850) = Num 885"
  by (simp add: taxBeforeRelief_of_def dec_eval fl_eval)

theorem relief_reported_is_constant_witness:
  "js_lt (taxBeforeRelief_of (taxableIncome (calculatePAYE example_10000))) (Num 2400) \<and>
   personalReliefUsed (calculatePAYE example_10000) = Num 2400 \<and>
   paye (calculatePAYE example_10000) = Num 0"
proof -
  have "taxBeforeRelief_of (taxableIncome (calculatePAYE example_10000)) = Num 885"
    by (simp add: calculatePAYE_fields example_10000_stages example_10000_taxableIncome
        example_10000_taxBeforeRelief)
  then have "js_lt (taxBeforeRelief_of (taxableIncome (calculatePAYE example_10000))) (Num 2400)"
    by simp
  with relief_reported_is_constant [of example_10000] show ?thesis by simp
qed

section \<open>Monotonicity in the gross pay\<close>

lemma example_99999_stages:
  "taxableBenefits_of example_99999 = Num 0"
  "nssf_of example_99999 = Num 1080"
  "nhif_of example_99999 = Num 1600"
  "ahl_of example_99999 = Num (3298490902862889 / 2199023255552)"
  by (simp_all add: stage_defs example_99999_def example_50000_def const_defs
      dec_eval fl_eval)

lemma example_99999_taxableIncome:
  "taxableIncome_of example_99999 (Num 0) (Num 1080) (Num 1600)
     (Num (3298490902862889 / 2199023255552)) = Num (6584632915756319 / 68719476736)"
  by (simp add: stage_defs example_99999_def example_50000_def const_defs fl_eval)

lemma example_99999_paye:
  "paye_of (Num (6584632915756319 / 68719476736)) = Num (5807911788494193 / 274877906944)"
  by (simp add: paye_of_def taxBeforeRelief_of_def const_defs dec_eval fl_eval)

lemma example_100000_stages:
  "taxableBenefits_of example_100000 = Num 0"
  "nssf_of example_100000 = Num 1080"
  "nhif_of example_100000 = Num 1700"
  "ahl_of example_100000 = Num 1500"
  by (simp_all add: stage_defs example_100000_def example_50000_def const_defs
      dec_eval fl_eval)

lemma example_100000_taxableIncome:
  "taxableIncome_of example_100000 (Num 0) (Num 1080) (Num 1700) (Num 1500) = Num 95720"
  by (simp add: stage_defs example_100000_def example_50000_def const_defs fl_eval)

lemma example_100000_paye:
  "paye_of (Num 95720) = Num (2899872582939443 / 137438953472)"
  by (simp add: paye_of_def taxBeforeRelief_of_def const_defs dec_eval fl_eval)

text \<open>
  Claim C4, as stated, fails for the income tax: from a gross pay of 99999 to one of 100000,
  all else equal, the health levy rises by 100 and the housing levy by 0.01, so the taxable
  income falls from 95819.01 to 95720 and the income tax from 21129.05 to 21099.35.
\<close>

theorem paye_not_monotone_in_grossPay:
  "valid_input example_99999 \<and> valid_input example_100000 \<and>
   example_100000 = example_99999\<lparr>grossPay := Num 100000\<rparr> \<and>
   js_le (grossPay example_99999) (grossPay example_100000) \<and>
   \<not> js_le (paye (calculatePAYE example_99999)) (paye (calculatePAYE example_100000))"
  unfolding calculatePAYE_fields example_99999_stages example_99999_taxableIncome
    example_99999_paye example_100000_stages example_100000_taxableIncome example_100000_paye
  by (simp add: valid_example_99999 valid_example_100000)
     (simp add: example_99999_def example_100000_def)

text \<open>
  Claim C4, amended. For two valid inputs that agree on every field except the gross pay, the
  second gross pay being at least the first, the health levy and the contribution of the
  second result are at least those of the first. The income tax is a non-decreasing function
  of the taxable income (for any two inputs), not of the gross pay.
\<close>

theorem levies_monotone_in_grossPay:
  assumes "valid_input p" and "amount g'" and "js_le (grossPay p) g'"
  shows "js_le (nhif (calculatePAYE p)) (nhif (calculatePAYE (p\<lparr>grossPay := g'\<rparr>))) \<and>
         js_le (nssf (calculatePAYE p)) (nssf (calculatePAYE (p\<lparr>grossPay := g'\<rparr>))) \<and>
         (\<forall>q. js_le (taxableIncome (calculatePAYE p)) (taxableIncome (calculatePAYE q)) \<longrightarrow>
              js_le (paye (calculatePAYE p)) (paye (calculatePAYE q)))"
proof -
  from assms(1) obtain a where a: "grossPay p = Num a"
    by (cases "grossPay p") (simp_all add: valid_input_def)
  from assms(2) obtain b where b: "g' = Num b" by (cases g') simp_all
  from assms(3) a b have ab: "a \<le> b" by simp
  have "js_le (nhif_of p) (nhif_of (p\<lparr>grossPay := g'\<rparr>))"
    by (rule nhif_of_mono [OF a _ ab]) (simp add: b)
  moreover have "js_le (nssf_of p) (nssf_of (p\<lparr>grossPay := g'\<rparr>))"
    by (rule nssf_of_mono [OF a _ ab]) (simp add: b)
  ultimately show ?thesis
    by (simp add: calculatePAYE_fields paye_of_mono)
qed

theorem levies_monotone_in_grossPay_witness:
  "valid_input example_99999 \<and> amount (Num 100000) \<and>
   js_le (grossPay example_99999) (Num 100000) \<and>
   js_le (nhif (calculatePAYE example_99999)) (nhif (calculatePAYE example_100000)) \<and>
   js_le (nssf (calculatePAYE example_99999)) (nssf (calculatePAYE example_100000))"
proof -
  have v: "valid_input example_99999" by (rule valid_example_99999)
  have g: "amount (Num 100000)" by (simp add: is_double_def fl_eval)
  have l: "js_le (grossPay example_99999) (Num 100000)"
    by (simp add: example_99999_def)
  have e: "example_99999\<lparr>grossPay := Num 100000\<rparr> = example_100000"
    by (simp add: example_99999_def example_100000_def)
  from levies_monotone_in_grossPay [OF v g l] v g l show ?thesis
    by (simp only: e)
qed

section \<open>The taxable income\<close>

lemma js_le_0_cases: "js_le (Num 0) x \<Longrightarrow> (\<exists>a. x = Num a \<and> 0 \<le> a) \<or> x = PosInfinity"
  by (cases x) simp_all

lemma js_add_nonneg: "js_le (Num 0) x \<Longrightarrow> js_le (Num 0) y \<Longrightarrow> js_le (Num 0) (js_add x y)"
  by (cases x; cases y) (simp_all add: to_double_nonneg)

lemma finite_between:
  "js_le (Num lo) x \<Longrightarrow> js_le x (Num hi) \<Longrightarrow> \<exists>n. x = Num n \<and> lo \<le> n \<and> n \<le> hi"
  by (cases x) simp_all

lemma js_sub_Num_NaN_iff [simp]: "(js_sub x (Num a) = NaN) = (x = NaN)"
  by (cases x) (simp_all add: js_sub_def)

lemma fix2_nonneg: "js_le (Num 0) x \<Longrightarrow> js_le (Num 0) (fix2 x)"
  using fix2_mono [of "Num 0" x] by (simp add: fix2_int_eval)

lemma fixed_int_cap:
  assumes "\<bar>a\<bar> < 10 ^ 21"
  shows "- (10 ^ 21) \<le> (of_int (fixed_int a) / 100 :: real) \<and> of_int (fixed_int a) / 100 \<le> (10 ^ 21 :: real)"
proof -
  have "fixed_int (- (10 ^ 21)) = - (10 ^ 23)" "fixed_int (10 ^ 21) = 10 ^ 23"
    by (simp_all add: fixed_int_def)
  moreover from assms have "fixed_int (- (10 ^ 21)) \<le> fixed_int a" "fixed_int a \<le> fixed_int (10 ^ 21)"
    by (intro fixed_int_mono; simp)+
  ultimately have "- (10 ^ 23) \<le> fixed_int a" "fixed_int a \<le> 10 ^ 23" by simp_all
  then have "(of_int (- (10 ^ 23)) :: real) \<le> of_int (fixed_int a)"
    "(of_int (fixed_int a) :: real) \<le> of_int (10 ^ 23)"
    by (simp_all only: of_int_le_iff)
  then show ?thesis by simp
qed

lemma to_double_10_21: "to_double (10 ^ 21) = Num (10 ^ 21)" "to_double (- (10 ^ 21)) = Num (- (10 ^ 21))"
  by (simp_all add: fl_eval)

lemma fix2_double_finite:
  assumes "is_double a"
  shows "\<exists>n. fix2 (Num a) = Num n"
proof (cases "10 ^ 21 \<le> \<bar>a\<bar>")
  case True
  with assms show ?thesis by (simp add: fix2_Num is_double_def)
next
  case False
  then have "\<bar>a\<bar> < 10 ^ 21" by simp
  from fixed_int_cap [OF this]
  have "js_le (to_double (- (10 ^ 21))) (to_double (of_int (fixed_int a) / 100))"
    "js_le (to_double (of_int (fixed_int a) / 100)) (to_double (10 ^ 21))"
    by (simp_all add: to_double_mono)
  then have "\<exists>n. to_double (of_int (fixed_int a) / 100) = Num n"
    unfolding to_double_10_21 by (cases "to_double (of_int (fixed_int a) / 100)") simp_all
  with False show ?thesis by (simp add: fix2_Num)
qed

lemma fix2_finite_below:
  assumes "0 \<le> m" "m \<le> a" "is_double a"
  shows "\<exists>n. fix2 (Num m) = Num n \<and> 0 \<le> n"
proof -
  from fix2_double_finite [OF assms(3)] obtain n where n: "fix2 (Num a) = Num n" by blast
  have "js_le (Num 0) (fix2 (Num m))" using assms(1) by (intro fix2_nonneg) simp
  moreover have "js_le (fix2 (Num m)) (Num n)"
    using fix2_mono [of "Num m" "Num a"] assms(2) by (simp add: n)
  ultimately show ?thesis using finite_between by blast
qed

lemma taxableBenefits_nonneg:
  assumes "valid_input p"
  shows "js_le (Num 0) (taxableBenefits_of p)"
proof -
  from assms obtain b h r where v: "benefits p = Num b" "0 \<le> b" "housingValue p = Num h"
    "rent p = Num r"
    by (cases "benefits p"; cases "housingValue p"; cases "rent p")
       (simp_all add: valid_input_def)
  have t0: "js_le (Num 0) (if \<not> ignoreBenefits p then benefits p
        else Math_max (Num 0) (js_sub (benefits p) (Num 5000)))"
    using v(2) by (simp add: v(1) Math_max_Num_0)
  have t1: "js_le (Num 0) (Math_max (Num 0) (js_sub (housingValue p) (rent p)))"
    by (rule Math_max_Num_0) (simp add: v js_sub_def)
  have "js_le (Num 0) (taxableBenefits_raw p)"
    unfolding taxableBenefits_raw_def Let_def
    using t0 js_add_nonneg [OF t0 t1] by (simp del: Math_max.simps js_le.simps)
  then show ?thesis unfolding taxableBenefits_of_def by (rule fix2_nonneg)
qed

lemma tier1_of_0: "tier1_of 0 = Num 0"
  by (simp add: tier1_of_def const_defs dec_eval)

lemma tier2_of_18000: "18000 \<le> a \<Longrightarrow> tier2_of a = Num 720"
  by (simp add: tier2_of_def const_defs dec_eval fl_eval)

lemma nssf_of_bounds:
  assumes g: "grossPay p = Num a" and a: "0 \<le> a"
  shows "\<exists>n. nssf_of p = Num n \<and> 0 \<le> n \<and> n \<le> 1080"
proof -
  have t1: "js_le (Num 0) (tier1_of a)" "js_le (tier1_of a) (Num 360)"
    using tier1_of_mono [of 0 a] tier1_of_mono [of a "max a 6000"] a
    by (simp_all add: tier1_of_0 tier1_of_6000)
  have t2: "6000 < a \<Longrightarrow> js_le (Num 360) (js_add (tier1_of a) (tier2_of a))"
    "6000 < a \<Longrightarrow> js_le (js_add (tier1_of a) (tier2_of a)) (Num 1080)"
  proof -
    assume x: "6000 < a"
    then have e: "tier1_of a = Num 360" by (simp add: tier1_of_6000)
    have "js_le (tier2_of 6000) (tier2_of a)" using x by (intro tier2_of_mono) simp
    then have lo: "js_le (Num 0) (tier2_of a)" by (simp only: tier2_of_6000)
    have hi: "js_le (tier2_of a) (Num 720)"
      using tier2_of_mono [of a "max a 18000"] by (simp add: tier2_of_18000)
    have c: "to_double 360 = Num 360" "to_double 1080 = Num 1080" by (simp_all add: fl_eval)
    from js_add_mono_right [OF lo, of 360] show "js_le (Num 360) (js_add (tier1_of a) (tier2_of a))"
      by (simp add: e c)
    from js_add_mono_right [OF hi, of 360] show "js_le (js_add (tier1_of a) (tier2_of a)) (Num 1080)"
      by (simp add: e c)
  qed
  have "js_le (Num 0) (if use2025Tiers p then
             (if deductTier2 p \<and> 6000 < a then js_add (tier1_of a) (tier2_of a) else tier1_of a)
           else Num 200) \<and>
        js_le (if use2025Tiers p then
             (if deductTier2 p \<and> 6000 < a then js_add (tier1_of a) (tier2_of a) else tier1_of a)
           else Num 200) (Num 1080)"
    using t1 t2 js_le_trans [OF _ t2(1), of "Num 0"] js_le_trans [OF t1(2), of "Num 1080"]
    by (simp del: js_le.simps) simp
  then have "js_le (Num 0) (nssf_of p) \<and> js_le (nssf_of p) (Num 1080)"
    unfolding nssf_of_eq [OF g]
    using fix2_mono [of "Num 0"] fix2_mono [of _ "Num 1080"] by (auto simp: fix2_int_eval)
  then show ?thesis using finite_between by blast
qed

lemma ahl_of_finite:
  assumes g: "grossPay p = Num a" and a: "0 \<le> a" "is_double a"
  shows "\<exists>n. ahl_of p = Num n \<and> 0 \<le> n"
proof (cases "deductAHL p")
  case False
  then show ?thesis by (simp add: ahl_of_def ahl_raw_def fix2_int_eval)
next
  case True
  let ?c = "1080863910568919 / 72057594037927936 :: real"
  have raw: "ahl_raw p = to_double (a * ?c)"
    using True by (simp add: ahl_raw_def g dec_15_3)
  have "0 \<le> a * ?c" "a * ?c \<le> a" using a(1) by simp_all
  then have "js_le (Num 0) (to_double (a * ?c))" "js_le (to_double (a * ?c)) (Num a)"
    using to_double_mono [of 0 "a * ?c"] to_double_mono [of "a * ?c" a] a(2)
    by (simp_all add: is_double_def)
  then obtain m where m: "to_double (a * ?c) = Num m" "0 \<le> m" "m \<le> a"
    using finite_between by blast
  from fix2_finite_below [OF m(2,3) a(2)] show ?thesis
    unfolding ahl_of_def raw m(1) .
qed

lemma pension_stages:
  "taxableBenefits_of (p\<lparr>pension := x\<rparr>) = taxableBenefits_of p"
  "nssf_of (p\<lparr>pension := x\<rparr>) = nssf_of p"
  "nhif_of (p\<lparr>pension := x\<rparr>) = nhif_of p"
  "ahl_of (p\<lparr>pension := x\<rparr>) = ahl_of p"
  by (simp_all add: stage_defs Let_def)

lemma incomeSubjectToPAYE_not_NaN:
  assumes "valid_input p"
  shows "incomeSubjectToPAYE_of p (taxableBenefits_of p) (nssf_of p) (nhif_of p) (ahl_of p) \<noteq> NaN"
proof -
  from assms obtain g pe d where v: "grossPay p = Num g" "0 \<le> g" "is_double g"
    "pension p = Num pe" "allowableDeductions p = Num d"
    by (cases "grossPay p"; cases "pension p"; cases "allowableDeductions p")
       (simp_all add: valid_input_def)
  from nssf_of_bounds [OF v(1,2)] obtain ns where ns: "nssf_of p = Num ns" by blast
  from nhif_of_value [OF v(1)] obtain nh where nh: "nhif_of p = Num nh" by blast
  from ahl_of_finite [OF v(1,2,3)] obtain ah where ah: "ahl_of p = Num ah" by blast
  have "js_le (Num 0) (js_add (grossPay p) (taxableBenefits_of p))"
    using v(2) by (intro js_add_nonneg taxableBenefits_nonneg [OF assms]) (simp add: v(1))
  then have "js_add (grossPay p) (taxableBenefits_of p) \<noteq> NaN" by (simp add: js_le_not_NaN)
  moreover have "\<exists>m. Math_min (pension p) (Num 30000) = Num m" by (simp add: v(4))
  ultimately show ?thesis
    unfolding incomeSubjectToPAYE_of_def ns nh ah v(5) by auto
qed

text \<open>
  Claim C2. For a valid input the taxable income is the gross pay plus the taxable benefits,
  less the pension contribution capped at 30000, the contribution, the health levy, the
  housing levy and the other deductions (subtracted in this order), floored at 0 and rounded
  to two decimals. It is never negative, and the pension enters only through
  \<open>min(pension, 30000)\<close>: two pension contributions with the same capped amount give the same
  taxable income.
\<close>

theorem taxable_income_formula:
  assumes "valid_input p"
  shows "taxableIncome (calculatePAYE p) =
           fix2 (Math_max (Num 0)
             (js_sub (js_sub (js_sub (js_sub (js_sub
                (js_add (grossPay p) (taxableBenefits (calculatePAYE p)))
                (Math_min (pension p) (Num 30000)))
                (nssf (calculatePAYE p))) (nhif (calculatePAYE p))) (ahl (calculatePAYE p)))
                (allowableDeductions p))) \<and>
         js_le (Num 0) (taxableIncome (calculatePAYE p)) \<and>
         (\<forall>x. Math_min x (Num 30000) = Math_min (pension p) (Num 30000) \<longrightarrow>
              taxableIncome (calculatePAYE (p\<lparr>pension := x\<rparr>)) = taxableIncome (calculatePAYE p))"
proof -
  have formula: "taxableIncome (calculatePAYE p) =
           fix2 (Math_max (Num 0)
             (js_sub (js_sub (js_sub (js_sub (js_sub
                (js_add (grossPay p) (taxableBenefits (calculatePAYE p)))
                (Math_min (pension p) (Num 30000)))
                (nssf (calculatePAYE p))) (nhif (calculatePAYE p))) (ahl (calculatePAYE p)))
                (allowableDeductions p)))"
    by (simp add: calculatePAYE_fields taxableIncome_of_def incomeSubjectToPAYE_of_def)
  have "js_le (Num 0) (Math_max (Num 0)
      (incomeSubjectToPAYE_of p (taxableBenefits_of p) (nssf_of p) (nhif_of p) (ahl_of p)))"
    by (rule Math_max_Num_0 [OF incomeSubjectToPAYE_not_NaN [OF assms]])
  then have nonneg: "js_le (Num 0) (taxableIncome (calculatePAYE p))"
    unfolding calculatePAYE_fields taxableIncome_of_def by (rule fix2_nonneg)
  have cap: "\<forall>x. Math_min x (Num 30000) = Math_min (pension p) (Num 30000) \<longrightarrow>
      taxableIncome (calculatePAYE (p\<lparr>pension := x\<rparr>)) = taxableIncome (calculatePAYE p)"
    by (simp add: calculatePAYE_fields pension_stages taxableIncome_of_def
        incomeSubjectToPAYE_of_def)
  from formula nonneg cap show ?thesis by (intro conjI)
qed

lemma valid_example_pension: "valid_input example_pension"
  by (simp add: valid_input_def example_pension_def example_50000_def is_double_def fl_eval)

theorem taxable_income_formula_witness:
  "valid_input example_pension \<and>
   js_le (Num 0) (taxableIncome (calculatePAYE example_pension)) \<and>
   Math_min (Num 30000) (Num 30000) = Math_min (pension example_pension) (Num 30000) \<and>
   taxableIncome (calculatePAYE (example_pension\<lparr>pension := Num 30000\<rparr>)) =
     taxableIncome (calculatePAYE example_pension)"
proof -
  have m: "Math_min (Num 30000) (Num 30000) = Math_min (pension example_pension) (Num 30000)"
    by (simp add: example_pension_def)
  from taxable_income_formula [OF valid_example_pension] m valid_example_pension
  show ?thesis by blast
qed

section \<open>Rounding to two decimals\<close>

lemma is_double_abs: "is_double x \<Longrightarrow> round_mag \<bar>x\<bar> = \<bar>x\<bar>"
  using round_mag_nonneg [of "\<bar>x\<bar>"]
  by (auto simp: is_double_def to_double_def Let_def split: if_splits)

lemma ilog2_pow2: "ilog2 (pow2 e) = e"
proof (rule ilog2_unique)
  show "pow2 e \<le> pow2 e" by simp
  have "pow2 (e + 1) = pow2 e * 2" by (simp add: pow2_add) (simp add: pow2_def)
  with pow2_pos [of e] show "pow2 e < pow2 (e + 1)" by simp
qed

lemma is_double_large_int:
  assumes "is_double x" and "pow2 53 \<le> \<bar>x\<bar>"
  shows "\<exists>k::int. x = of_int k"
proof -
  let ?a = "\<bar>x\<bar>"
  from assms(2) pow2_pos [of 53] have a: "0 < ?a" by linarith
  have "ilog2 (pow2 53) \<le> ilog2 ?a" by (rule ilog2_mono [OF pow2_pos assms(2)])
  then have q: "1 \<le> quantum ?a" by (simp add: ilog2_pow2 quantum_def)
  then have pq: "pow2 (quantum ?a) = of_int (2 ^ nat (quantum ?a))" by (intro pow2_nat) simp
  have "?a = round_mag ?a" using is_double_abs [OF assms(1)] by simp
  also have "\<dots> = of_int (round_half_even (?a / pow2 (quantum ?a)) * 2 ^ nat (quantum ?a))"
    by (simp only: round_mag_pos_eq [OF a] pq of_int_mult)
  finally obtain k :: int where k: "?a = of_int k" by blast
  show ?thesis
  proof (cases "x < 0")
    case True
    with k have "x = of_int (- k)" by simp
    then show ?thesis by blast
  next
    case False
    with k have "x = of_int k" by simp
    then show ?thesis by blast
  qed
qed

lemma fixed_int_tie:
  assumes "\<bar>of_int (fixed_int x) / 100 - x\<bar> = 1 / 200"
  shows "\<bar>x\<bar> < \<bar>of_int (fixed_int x) / 100\<bar>"
proof (cases "x < 0")
  case True
  let ?z = "(- x) * 100 + 1 / 2"
  have eq: "fixed_int x = - \<lfloor>?z\<rfloor>" using True by (simp add: fixed_int_def)
  have "of_int \<lfloor>?z\<rfloor> \<le> ?z" "?z < of_int \<lfloor>?z\<rfloor> + 1" by linarith+
  with assms True show ?thesis unfolding eq of_int_minus by linarith
next
  case False
  let ?z = "x * 100 + 1 / 2"
  have eq: "fixed_int x = \<lfloor>?z\<rfloor>" using False by (simp add: fixed_int_def)
  have "of_int \<lfloor>?z\<rfloor> \<le> ?z" "?z < of_int \<lfloor>?z\<rfloor> + 1" by linarith+
  with assms False show ?thesis unfolding eq by linarith
qed

lemma nearest_hundredth:
  assumes "\<bar>of_int n / 100 - x\<bar> \<le> 1 / 200"
  shows "\<bar>of_int n / 100 - x\<bar> \<le> \<bar>of_int m / 100 - (x::real)\<bar>"
proof (cases "m = n")
  case True
  then show ?thesis by simp
next
  case False
  then have "m \<le> n - 1 \<or> n + 1 \<le> m" by linarith
  then have "(of_int m :: real) \<le> of_int (n - 1) \<or> (of_int (n + 1) :: real) \<le> of_int m"
    by (simp only: of_int_le_iff)
  then have "(of_int m :: real) \<le> of_int n - 1 \<or> (of_int n :: real) + 1 \<le> of_int m"
    by simp
  with assms show ?thesis by linarith
qed

text \<open>
  What \<^verbatim>\<open>parseFloat(x.toFixed(2))\<close> does to a finite double: it takes a hundredth nearest to
  \<open>x\<close>, the one away from zero if \<open>x\<close> lies half way between two, and gives the double nearest
  to that hundredth.
\<close>

lemma fix2_round_half_away:
  assumes "is_double x"
  shows "\<exists>n. fix2 (Num x) = to_double (of_int n / 100) \<and>
             (\<forall>m. \<bar>of_int n / 100 - x\<bar> \<le> \<bar>of_int m / 100 - x\<bar>) \<and>
             (\<bar>of_int n / 100 - x\<bar> = 1 / 200 \<longrightarrow> \<bar>x\<bar> < \<bar>of_int n / 100\<bar>) \<and>
             (\<bar>x\<bar> < 10 ^ 21 \<longrightarrow> toFixed2 (Num x) = Fixed2 n)"
proof (cases "10 ^ 21 \<le> \<bar>x\<bar>")
  case False
  let ?n = "fixed_int x"
  have "fix2 (Num x) = to_double (of_int ?n / 100)" using False by (simp add: fix2_Num)
  moreover have "\<forall>m. \<bar>of_int ?n / 100 - x\<bar> \<le> \<bar>of_int m / 100 - x\<bar>"
    using nearest_hundredth [OF fixed_int_bounds] by blast
  moreover have "\<bar>of_int ?n / 100 - x\<bar> = 1 / 200 \<longrightarrow> \<bar>x\<bar> < \<bar>of_int ?n / 100\<bar>"
    using fixed_int_tie by blast
  moreover have "toFixed2 (Num x) = Fixed2 ?n" using False by simp
  ultimately show ?thesis by blast
next
  case True
  have "pow2 53 \<le> (10 ^ 21 :: real)" by (simp add: pow2_def)
  with True have "pow2 53 \<le> \<bar>x\<bar>" by linarith
  from is_double_large_int [OF assms this] obtain k :: int where k: "x = of_int k" by blast
  let ?n = "100 * k"
  have e: "(of_int ?n / 100 :: real) = x" by (simp add: k)
  have "fix2 (Num x) = to_double (of_int ?n / 100)"
    unfolding e using True by (simp add: fix2_Num)
  moreover have "\<forall>m. \<bar>of_int ?n / 100 - x\<bar> \<le> \<bar>of_int m / 100 - x\<bar>"
    unfolding e by simp
  moreover have "\<bar>of_int ?n / 100 - x\<bar> = 1 / 200 \<longrightarrow> \<bar>x\<bar> < \<bar>of_int ?n / 100\<bar>"
    unfolding e by simp
  moreover have "\<bar>x\<bar> < 10 ^ 21 \<longrightarrow> toFixed2 (Num x) = Fixed2 ?n"
    using True by simp
  ultimately show ?thesis by blast
qed

lemma divide_by_factor: "0 < P \<Longrightarrow> r = k * P \<Longrightarrow> r / P = (k::real)"
  by simp

lemma round_mag_fixed:
  assumes r: "0 < r" and rep: "r = of_int m * pow2 q'" and q: "quantum r \<le> q'"
  shows "round_mag r = r"
proof -
  let ?Q = "quantum r"
  have p: "pow2 (q' - ?Q) = of_int (2 ^ nat (q' - ?Q))" using q by (intro pow2_nat) simp
  have "pow2 q' = pow2 (q' - ?Q) * pow2 ?Q" using pow2_add [of "q' - ?Q" ?Q] by simp
  then have "of_int m * pow2 q' = of_int (m * 2 ^ nat (q' - ?Q)) * pow2 ?Q"
    by (simp only: p of_int_mult mult.assoc)
  with rep have r': "r = of_int (m * 2 ^ nat (q' - ?Q)) * pow2 ?Q" by (rule trans)
  have "r / pow2 ?Q = of_int (m * 2 ^ nat (q' - ?Q))"
    by (rule divide_by_factor [OF pow2_pos r'])
  then have "round_half_even (r / pow2 ?Q) = m * 2 ^ nat (q' - ?Q)"
    by (simp only: rhe_of_int)
  then have "round_mag r = of_int (m * 2 ^ nat (q' - ?Q)) * pow2 ?Q"
    by (simp only: round_mag_pos_eq [OF r])
  from this r' [symmetric] show ?thesis by (rule trans)
qed

lemma round_mag_idem:
  assumes "0 \<le> a"
  shows "round_mag (round_mag a) = round_mag a"
proof (cases "a = 0")
  case True
  then show ?thesis by (simp add: round_mag_def)
next
  case False
  with assms have a: "0 < a" by simp
  let ?q = "quantum a" and ?e = "ilog2 a"
  let ?m = "round_half_even (a / pow2 ?q)"
  let ?r = "round_mag a"
  have rm: "?r = of_int ?m * pow2 ?q" by (rule round_mag_pos_eq [OF a])
  have m0: "0 \<le> ?m" using a pow2_pos [of ?q] by (intro rhe_nonneg) simp
  note b = ilog2_bounds [OF a]
  show ?thesis
  proof (cases "?m = 0")
    case True
    then show ?thesis by (simp add: rm) (simp add: round_mag_def)
  next
    case False
    with m0 have m1: "1 \<le> ?m" by simp
    then have "(1::real) \<le> of_int ?m" by (simp only: of_int_1_le_iff)
    then have "1 * pow2 ?q \<le> of_int ?m * pow2 ?q"
      using pow2_pos [of ?q] by (intro mult_right_mono) simp_all
    with pow2_pos [of ?q] have r: "0 < ?r" and rq: "pow2 ?q \<le> ?r" by (simp_all add: rm)
    show ?thesis
    proof (cases "?q \<le> ?e")
      case True
      have lo: "pow2 ?e \<le> ?r" using b True by (intro round_mag_ge_pow2 [OF a]) simp_all
      have hi: "?r \<le> pow2 (?e + 1)" using b True by (intro round_mag_le_pow2 [OF a]) simp_all
      show ?thesis
      proof (cases "?r < pow2 (?e + 1)")
        case True
        from ilog2_unique [OF lo True] have "quantum ?r = ?q" by (simp add: quantum_def)
        then show ?thesis by (intro round_mag_fixed [OF r rm]) simp
      next
        case False
        with hi have e: "?r = pow2 (?e + 1)" by simp
        then have "ilog2 ?r = ?e + 1" by (simp add: ilog2_pow2)
        moreover have "- 1074 \<le> ?q" by (simp add: quantum_def)
        ultimately have "quantum ?r \<le> ?e + 1" using True by (simp add: quantum_def)
        moreover have "?r = of_int 1 * pow2 (?e + 1)" using e by simp
        ultimately show ?thesis by (intro round_mag_fixed [OF r])
      qed
    next
      case False
      then have q: "?q = - 1074" by (simp add: quantum_def max_def split: if_splits)
      from False have "?e + 1 \<le> ?q" by simp
      then have "pow2 (?e + 1) \<le> pow2 ?q" by (rule pow2_mono)
      with b have "a < pow2 ?q" by linarith
      then have "a / pow2 ?q < 1" using pow2_pos [of ?q] by simp
      then have "\<lfloor>a / pow2 ?q\<rfloor> \<le> 0" by linarith
      with rhe_floor_bounds [of "a / pow2 ?q"] m1 have "?m = 1" by linarith
      then have e: "?r = pow2 ?q" by (simp add: rm)
      then have "ilog2 ?r = - 1074" by (simp only: ilog2_pow2 q)
      then have "quantum ?r = - 1074" by (simp add: quantum_def [of ?r])
      then have "quantum ?r = ?q" by (simp only: q)
      then show ?thesis by (intro round_mag_fixed [OF r rm]) simp
    qed
  qed
qed

lemma to_double_idem:
  assumes "to_double q = Num x"
  shows "is_double x"
proof -
  let ?m = "round_mag \<bar>q\<bar>"
  from assms have lt: "\<not> pow2 1024 \<le> ?m" and x: "x = (if q < 0 then - ?m else ?m)"
    by (auto simp: to_double_def Let_def split: if_splits)
  have m0: "0 \<le> ?m" by (intro round_mag_nonneg) simp
  then have ax: "\<bar>x\<bar> = ?m" by (simp add: x)
  have "round_mag \<bar>x\<bar> = ?m" unfolding ax by (intro round_mag_idem) simp
  moreover have "(x < 0) = (q < 0 \<and> ?m \<noteq> 0)" using m0 by (auto simp: x)
  ultimately show ?thesis
    unfolding is_double_def to_double_def Let_def using lt x by auto
qed

lemma js_number_to_double [simp]: "js_number (to_double q)"
  by (cases "to_double q") (simp_all add: to_double_idem)

lemma js_number_ops [simp]:
  "js_number (js_add x y)" "js_number (js_mul x y)" "js_number (js_sub x y)"
  "js_number (dec n k)"
  by (cases x; cases y; simp add: js_sub_def dec_def)+

lemma js_number_max_min [simp]:
  "js_number x \<Longrightarrow> js_number y \<Longrightarrow> js_number (Math_max x y)"
  "js_number x \<Longrightarrow> js_number y \<Longrightarrow> js_number (Math_min x y)"
  by (cases x; cases y; simp)+

lemma js_number_fix2 [simp]: "js_number (fix2 x)"
  by (cases x) (simp_all add: fix2_def)

lemma js_number_amount: "amount x \<Longrightarrow> js_number x"
  by (cases x) simp_all

lemma fix2_rounded:
  assumes "js_number x"
  shows "rounded_2dp x (fix2 x)"
proof (cases x)
  case (Num a)
  with assms have "is_double a" by simp
  from fix2_round_half_away [OF this] show ?thesis
    unfolding Num rounded_2dp.simps rounds_half_away_2dp_def by blast
qed (simp_all add: fix2_def)

lemma is_double_consts:
  "is_double 0" "is_double 150" "is_double 200" "is_double 300" "is_double 400"
  "is_double 500" "is_double 600" "is_double 750" "is_double 850" "is_double 900"
  "is_double 950" "is_double 1000" "is_double 1100" "is_double 1200" "is_double 1300"
  "is_double 1400" "is_double 1500" "is_double 1600" "is_double 1700"
  by (simp_all add: is_double_def fl_eval)

lemma js_number_raw:
  assumes "valid_input p"
  shows "js_number (taxableBenefits_raw p)" "js_number (nssf_raw p)" "js_number (nhif_raw p)"
    "js_number (ahl_raw p)"
proof -
  from assms have v: "js_number (benefits p)" "js_number (housingValue p)" "js_number (rent p)"
    by (simp_all add: valid_input_def js_number_amount)
  show "js_number (taxableBenefits_raw p)"
    using v by (simp add: taxableBenefits_raw_def Let_def is_double_consts)
  show "js_number (nssf_raw p)"
    by (simp add: nssf_raw_def Let_def is_double_consts)
  show "js_number (nhif_raw p)"
    by (simp add: nhif_raw_def Let_def is_double_consts)
  show "js_number (ahl_raw p)"
    by (simp add: ahl_raw_def is_double_consts)
qed

text \<open>
  Claim C7. Every monetary field of the result is the value of its step rounded to two
  decimals, half away from zero, once: the echoed inputs are the rounded inputs, and each
  computed field is the rounded value of the arithmetic of its step, in which the tiers and
  bands are not rounded. What is rounded is the exact value of the double, and what is
  published is the double nearest to the rounded decimal.
\<close>

theorem published_fields_rounded:
  assumes "valid_input p"
  shows "rounded_2dp (grossPay p) (grossPay_out (calculatePAYE p)) \<and>
         rounded_2dp (benefits p) (benefits_out (calculatePAYE p)) \<and>
         rounded_2dp (pension p) (pension_out (calculatePAYE p)) \<and>
         rounded_2dp (allowableDeductions p) (allowableDeductions_out (calculatePAYE p)) \<and>
         rounded_2dp (housingValue p) (housingValue_out (calculatePAYE p)) \<and>
         rounded_2dp (rent p) (rent_out (calculatePAYE p)) \<and>
         rounded_2dp (taxableBenefits_raw p) (taxableBenefits (calculatePAYE p)) \<and>
         rounded_2dp (nssf_raw p) (nssf (calculatePAYE p)) \<and>
         rounded_2dp (nhif_raw p) (nhif (calculatePAYE p)) \<and>
         rounded_2dp (ahl_raw p) (ahl (calculatePAYE p)) \<and>
         rounded_2dp
           (Math_max (Num 0) (incomeSubjectToPAYE_of p (taxableBenefits (calculatePAYE p))
              (nssf (calculatePAYE p)) (nhif (calculatePAYE p)) (ahl (calculatePAYE p))))
           (taxableIncome (calculatePAYE p)) \<and>
         rounded_2dp
           (Math_max (Num 0)
              (js_sub (taxBeforeRelief_of (taxableIncome (calculatePAYE p))) KRA_MONTHLY_RELIEF))
           (paye (calculatePAYE p)) \<and>
         rounded_2dp
           (js_add (js_add (js_add (js_add (js_add (paye (calculatePAYE p))
              (nssf (calculatePAYE p))) (nhif (calculatePAYE p))) (ahl (calculatePAYE p)))
              (pension p)) (allowableDeductions p))
           (totalDeductions (calculatePAYE p)) \<and>
         rounded_2dp (js_sub (grossPay p) (totalDeductions (calculatePAYE p)))
           (netPay (calculatePAYE p))"
proof -
  from assms have v: "js_number (grossPay p)" "js_number (benefits p)" "js_number (pension p)"
    "js_number (allowableDeductions p)" "js_number (housingValue p)" "js_number (rent p)"
    by (simp_all add: valid_input_def js_number_amount)
  have echo: "grossPay_out (calculatePAYE p) = fix2 (grossPay p)"
    "benefits_out (calculatePAYE p) = fix2 (benefits p)"
    "pension_out (calculatePAYE p) = fix2 (pension p)"
    "allowableDeductions_out (calculatePAYE p) = fix2 (allowableDeductions p)"
    "housingValue_out (calculatePAYE p) = fix2 (housingValue p)"
    "rent_out (calculatePAYE p) = fix2 (rent p)"
    by (simp_all add: calculatePAYE_def Let_def)
  have zero: "js_number (Num 0)" by (simp add: is_double_consts)
  note raw = js_number_raw [OF assms]
  show ?thesis
    unfolding echo calculatePAYE_fields taxableBenefits_of_def nssf_of_def nhif_of_def
      ahl_of_def taxableIncome_of_def incomeSubjectToPAYE_of_def paye_of_def
      KRA_MONTHLY_RELIEF_def
    by (intro conjI fix2_rounded v raw js_number_max_min js_number_ops zero)
qed

lemma valid_example_tie: "valid_input example_tie"
  by (simp add: valid_input_def example_tie_def example_50000_def is_double_def fl_eval)

theorem published_fields_rounded_witness:
  "valid_input example_tie \<and>
   rounded_2dp (benefits example_tie) (benefits_out (calculatePAYE example_tie)) \<and>
   benefits example_tie = Num (500012 / 100 + 1 / 200) \<and>
   benefits_out (calculatePAYE example_tie) = to_double (500013 / 100)"
proof -
  have "benefits_out (calculatePAYE example_tie) = to_double (500013 / 100)"
    by (simp add: calculatePAYE_def Let_def example_tie_def example_50000_def fix2_def
        fixed_int_def)
  moreover have "benefits example_tie = Num (500012 / 100 + 1 / 200)"
    by (simp add: example_tie_def)
  ultimately show ?thesis
    using published_fields_rounded [OF valid_example_tie] valid_example_tie by blast
qed

section \<open>The housing type\<close>

lemma housingType_stages:
  "taxableBenefits_of (p\<lparr>housingType := t\<rparr>) = taxableBenefits_of p"
  "nssf_of (p\<lparr>housingType := t\<rparr>) = nssf_of p"
  "nhif_of (p\<lparr>housingType := t\<rparr>) = nhif_of p"
  "ahl_of (p\<lparr>housingType := t\<rparr>) = ahl_of p"
  "taxableIncome_of (p\<lparr>housingType := t\<rparr>) tb ns nh ah = taxableIncome_of p tb ns nh ah"
  by (simp_all add: stage_defs Let_def)

text \<open>
  Claim C10. Two inputs that differ only in \<open>housingType\<close> give the same result: the field
  has no influence on any computed or echoed field. The result record has no field for it.
\<close>

theorem housingType_unused:
  "calculatePAYE (p\<lparr>housingType := t\<rparr>) = calculatePAYE p"
  by (simp add: calculatePAYE_def housingType_stages)

theorem housingType_unused_witness:
  "calculatePAYE (example_50000\<lparr>housingType := ''2''\<rparr>) = calculatePAYE example_50000"
  using housingType_unused [of "''2''" example_50000] by simp

section \<open>The ledger\<close>

lemma initial_ledger_ok: "ledger_ok initial_ledger"
  by (simp add: ledger_ok_def initial_ledger_def)

lemma addToHistory_ok:
  assumes "ledger_ok s"
  shows "\<exists>s' prev. arrays s (history s) = Some prev \<and> addToHistory now result s = Some s' \<and>
           ledger_ok s' \<and> history_list s' = Some (entry now result # prev) \<and>
           (\<forall>r xs. arrays s r = Some xs \<longrightarrow> arrays s' r = Some xs)"
proof -
  from assms obtain prev where prev: "arrays s (history s) = Some prev"
    by (auto simp: ledger_ok_def)
  from assms have fresh: "\<And>r. next_ref s \<le> r \<Longrightarrow> arrays s r = None"
    by (simp add: ledger_ok_def)
  let ?s' = "s\<lparr> arrays := (arrays s)(next_ref s \<mapsto> entry now result # prev),
                 next_ref := Suc (next_ref s), history := next_ref s \<rparr>"
  have step: "addToHistory now result s = Some ?s'"
    by (simp add: addToHistory_def new_array_def prev)
  have ok: "ledger_ok ?s'"
    by (simp add: ledger_ok_def fresh)
  have "arrays s (next_ref s) = None"
    by (simp add: fresh)
  then have frame: "\<forall>r xs. arrays s r = Some xs \<longrightarrow> arrays ?s' r = Some xs"
    by auto
  have hl: "history_list ?s' = Some (entry now result # prev)"
    by (simp add: history_list_def)
  from prev step ok hl frame show ?thesis by blast
qed

lemma appends_ok: "ledger_ok s \<Longrightarrow> \<exists>s'. appends es s = Some s' \<and> ledger_ok s'"
proof (induction es arbitrary: s)
  case Nil
  then show ?case by simp
next
  case (Cons e es)
  obtain now result where e: "e = (now, result)" by (cases e)
  from addToHistory_ok [OF Cons.prems, of now result]
  obtain s1 where s1: "addToHistory now result s = Some s1" "ledger_ok s1" by blast
  from Cons.IH [OF s1(2)] show ?case by (simp add: e s1(1))
qed

lemma HistoryScreen_data_frame:
  assumes "ledger_ok s"
  shows "\<exists>r' s'. HistoryScreen_data s = Some (r', s') \<and>
           (\<forall>r xs. arrays s r = Some xs \<longrightarrow> arrays s' r = Some xs)"
proof -
  from assms obtain prev where prev: "arrays s (history s) = Some prev"
    by (auto simp: ledger_ok_def)
  have "HistoryScreen_data s =
      Some (next_ref s, s\<lparr> arrays := (arrays s)(next_ref s \<mapsto> rev prev),
                              next_ref := Suc (next_ref s) \<rparr>)"
    by (simp add: HistoryScreen_data_def new_array_def reverse_in_place_def prev)
  moreover have "arrays s (next_ref s) = None"
    using assms by (simp add: ledger_ok_def)
  then have "\<forall>r xs. arrays s r = Some xs \<longrightarrow>
      arrays (s\<lparr> arrays := (arrays s)(next_ref s \<mapsto> rev prev),
                 next_ref := Suc (next_ref s) \<rparr>) r = Some xs"
    by auto
  ultimately show ?thesis by blast
qed

text \<open>
  Claim C8. After an append, every array that the ledger handed out before (every array of
  the store of a ledger reached by appends, among them each earlier value of \<open>history\<close>) has
  the content and the order it had: the append always succeeds, allocates a new array for
  the new history and mutates, drops or merges nothing. Building the list of the history
  screen leaves these arrays untouched as well.
\<close>

theorem append_keeps_snapshots:
  assumes "appends es initial_ledger = Some s" and "arrays s r = Some xs"
  shows "(\<exists>s'. addToHistory now result s = Some s' \<and> arrays s' r = Some xs) \<and>
         (\<exists>r' s'. HistoryScreen_data s = Some (r', s') \<and> arrays s' r = Some xs)"
proof -
  from appends_ok [OF initial_ledger_ok, of es] assms(1) have ok: "ledger_ok s" by auto
  from addToHistory_ok [OF ok, of now result] assms(2)
  have "\<exists>s'. addToHistory now result s = Some s' \<and> arrays s' r = Some xs" by blast
  moreover from HistoryScreen_data_frame [OF ok] assms(2)
  have "\<exists>r' s'. HistoryScreen_data s = Some (r', s') \<and> arrays s' r = Some xs" by blast
  ultimately show ?thesis ..
qed

lemma one_append:
  "appends [(t1, r1)] initial_ledger =
     Some \<lparr> arrays = Map.empty(0 \<mapsto> [], 1 \<mapsto> [entry t1 r1]), next_ref = 2, history = 1 \<rparr>"
  by (simp add: addToHistory_def initial_ledger_def new_array_def)

theorem append_keeps_snapshots_witness:
  "\<exists>s. appends [(''2024-05-01T08:00:00.000Z'', calculatePAYE example_50000)] initial_ledger = Some s \<and>
     arrays s 1 = Some [entry ''2024-05-01T08:00:00.000Z'' (calculatePAYE example_50000)] \<and>
     (\<exists>s'. addToHistory ''2024-05-01T09:00:00.000Z'' (calculatePAYE example_50000) s = Some s' \<and>
        arrays s' 1 = Some [entry ''2024-05-01T08:00:00.000Z'' (calculatePAYE example_50000)]) \<and>
     (\<exists>r' s'. HistoryScreen_data s = Some (r', s') \<and>
        arrays s' 1 = Some [entry ''2024-05-01T08:00:00.000Z'' (calculatePAYE example_50000)])"
proof -
  let ?t = "''2024-05-01T08:00:00.000Z''" and ?R = "calculatePAYE example_50000"
  let ?s = "\<lparr> arrays = Map.empty(0 \<mapsto> [], 1 \<mapsto> [entry ?t ?R]), next_ref = 2, history = 1 \<rparr>"
  have a: "appends [(?t, ?R)] initial_ledger = Some ?s" by (rule one_append)
  have b: "arrays ?s 1 = Some [entry ?t ?R]" by simp
  from append_keeps_snapshots [OF a b] a b show ?thesis by blast
qed

text \<open>
  Claim C6. Appending \<open>R1\<close>, then \<open>R2\<close>, then \<open>R3\<close> leaves the newest entry first in the
  history array, and the list of \<^verbatim>\<open>HistoryScreen\<close> reverses that array once more: its rows are
  \<open>R1\<close>, \<open>R2\<close>, \<open>R3\<close>, the oldest entry on top.
\<close>

theorem HistoryScreen_rows_oldest_first:
  "(case appends [(t1, r1), (t2, r2), (t3, r3)] initial_ledger of
      None \<Rightarrow> None
    | Some s \<Rightarrow> Some (history_list s, HistoryScreen_rows s)) =
   Some (Some [entry t3 r3, entry t2 r2, entry t1 r1],
         Some [entry t1 r1, entry t2 r2, entry t3 r3])"
  by (simp add: addToHistory_def initial_ledger_def new_array_def history_list_def
      HistoryScreen_rows_def HistoryScreen_data_def reverse_in_place_def)

lemma second_of_case:
  "(case A of None \<Rightarrow> None | Some s \<Rightarrow> Some (f s, g s)) = Some (x, y) \<Longrightarrow>
   (case A of None \<Rightarrow> None | Some s \<Rightarrow> g s) = y"
  by (cases A) simp_all

theorem HistoryScreen_rows_oldest_first_witness:
  "(case appends [(''2024-05-01T08:00:00.000Z'', calculatePAYE example_10000),
                  (''2024-05-01T09:00:00.000Z'', calculatePAYE example_50000),
                  (''2024-05-01T10:00:00.000Z'', calculatePAYE example_100000)] initial_ledger of
      None \<Rightarrow> None
    | Some s \<Rightarrow> HistoryScreen_rows s) =
   Some [entry ''2024-05-01T08:00:00.000Z'' (calculatePAYE example_10000),
         entry ''2024-05-01T09:00:00.000Z'' (calculatePAYE example_50000),
         entry ''2024-05-01T10:00:00.000Z'' (calculatePAYE example_100000)]"
  by (rule second_of_case [OF HistoryScreen_rows_oldest_first])

end
